theory Spec2Isabelle
  imports Complex_Main "HOL-Library.Word" "HOL-Library.Multiset"
begin

section \<open>Data model of the Mandelbrot generator (C-FFPGAv2/ffpga.c)\<close>

text \<open>
  Conventions of the embedding.
  \<^item> A C \<open>double\<close> is a \<^typ>\<open>real\<close>: arithmetic is exact, there is no rounding, no
    overflow to infinity and no NaN. Where IEEE arithmetic would produce an infinity or a
    NaN (a division by zero) the branch the C code takes is written out. The program
    rounds every operation; a comparison whose two sides are closer than the rounding
    error can come out the other way in the program, and a sum can round up to its
    bound. A statement below that decides a branch or a strict bound from computed
    values is a statement about exact arithmetic, and is marked as such.
  \<^item> A C \<open>int\<close> is an \<^typ>\<open>int\<close> without overflow. The program computes
    \<open>width * height\<close>, \<open>py * width + px\<close> and \<open>i * 3\<close> in C ints: the definitions agree
    with it as long as these products do not exceed \<open>INT_MAX\<close>, and the theorems about
    the loops over the pixels assume so. The counters are bounded by the number of
    pixels and by \<open>max_iter\<close>.
  \<^item> An \<open>unsigned char\<close> is an \<^typ>\<open>8 word\<close>.
  \<^item> A pointer that may be \<open>NULL\<close> is an \<open>option\<close>; an array is a list, and an access
    outside of it is the fault \<open>OutOfBounds\<close>.
\<close>

datatype fault = OutOfBounds | DivisionByZero

record Color =
  r :: "8 word"
  g :: "8 word"
  b :: "8 word"

record Complex_d =
  real_d :: real
  imag_d :: real

record MandelbrotParams =
  width :: int
  height :: int
  max_iterations :: int
  num_threads :: int
  zoom :: real
  center_x :: real
  center_y :: real
  x_min :: real
  x_max :: real
  y_min :: real
  y_max :: real
  output_filename :: string
  use_histogram :: int
  series_approx :: int

record Histogram =
  counts :: "int list"
  total_pixels :: int
  max_count :: int

record PerformanceStats =
  total_time :: real
  pixels_per_second :: real
  pixels_optimized :: int
  series_skips :: int

definition ESCAPE_RADIUS :: real where "ESCAPE_RADIUS = 2"
definition ESCAPE_RADIUS_SQ :: real where "ESCAPE_RADIUS_SQ = 4"
definition BAILOUT_TEST :: real where "BAILOUT_TEST = 256"
definition SERIES_TERMS :: int where "SERIES_TERMS = 8"
definition MIN_SERIES_ITER :: int where "MIN_SERIES_ITER = 10"

text \<open>The largest value of a C \<open>int\<close> on the platforms of the build script (32 bits).\<close>

definition INT_MAX :: int where "INT_MAX = 2147483647"

text \<open>The conversion \<open>(int)x\<close> of a double: truncation towards zero.\<close>

definition int_of_double :: "real \<Rightarrow> int" where
  "int_of_double x = (if 0 \<le> x then \<lfloor>x\<rfloor> else \<lceil>x\<rceil>)"

text \<open>
  The conversion \<open>(unsigned char)x\<close>. The colour mappers apply it to values between 0 and
  255 for iteration results in \<open>[0, max_iter)\<close> under the standard mapping; outside of
  that range C leaves the result undefined and the model reduces modulo 256.
\<close>

definition uchar_of_double :: "real \<Rightarrow> 8 word" where
  "uchar_of_double x = word_of_int (int_of_double x)"

section \<open>Fast-rejection detector\<close>

text \<open>\<open>quick_mandelbrot_check\<close> of C-FFPGAv2/ffpga.c; the C result 1 is \<open>True\<close>.\<close>

definition quick_mandelbrot_check :: "real \<Rightarrow> real \<Rightarrow> bool" where
  "quick_mandelbrot_check cr ci =
     (let x_quarter = cr - 0.25;
          q = x_quarter * x_quarter + ci * ci
      in if q * (q + x_quarter) < 0.25 * ci * ci then True
         else let bulb_x = cr + 1.0
              in if bulb_x * bulb_x + ci * ci < 0.0625 then True else False)"

text \<open>
  The closed-form tests as the specification words them (section 4.1): main cardioid
  and period-2 bulb.
\<close>

definition spec_main_cardioid :: "real \<Rightarrow> real \<Rightarrow> bool" where
  "spec_main_cardioid cr ci =
     (let q = (cr - 0.25)\<^sup>2 + ci\<^sup>2 in q * (q + (cr - 0.25)) < 0.25 * ci\<^sup>2)"

definition spec_period2_bulb :: "real \<Rightarrow> real \<Rightarrow> bool" where
  "spec_period2_bulb cr ci = ((cr + 1)\<^sup>2 + ci\<^sup>2 < 0.0625)"

definition spec_isDefinitelyInSet :: "real \<Rightarrow> real \<Rightarrow> bool" where
  "spec_isDefinitelyInSet cr ci = (spec_main_cardioid cr ci \<or> spec_period2_bulb cr ci)"

text \<open>
  The C library function \<open>atan2(y, x)\<close>, used by the older variant C-FFPGA/ffpga.c:
  the angle of the point \<open>(x, y)\<close> in \<open>(-pi, pi]\<close>, and 0 at the origin.
\<close>

definition atan2 :: "real \<Rightarrow> real \<Rightarrow> real" where
  "atan2 y x =
     (if 0 < x then arctan (y / x)
      else if x < 0 then (if 0 \<le> y then arctan (y / x) + pi else arctan (y / x) - pi)
      else if 0 < y then pi / 2
      else if y < 0 then - (pi / 2)
      else 0)"

text \<open>\<open>quick_ffpga_check\<close> of the older variant C-FFPGA/ffpga.c.\<close>

definition quick_ffpga_check :: "real \<Rightarrow> real \<Rightarrow> bool" where
  "quick_ffpga_check cr ci =
     (let x_shifted = cr + 1.0;
          r_sq = x_shifted * x_shifted + ci * ci
      in if r_sq < 0.0625 \<and>
            (let theta = atan2 ci x_shifted;
                 cardioid_r = 0.25 * (1.0 - cos theta)
             in r_sq < cardioid_r * cardioid_r)
         then True
         else let bulb_x = cr + 1.25
              in if bulb_x * bulb_x + ci * ci < 0.0625 then True else False)"

section \<open>Series approximation estimator\<close>

text \<open>
  The seed loop of \<open>series_approximation\<close>:
  \<open>for (i = 0; i < SERIES_TERMS && i < max_iter / 4; i++)\<close>. It returns \<open>None\<close> where the C
  loop leaves the function with \<open>return -1\<close>, and the final \<open>z\<close> and \<open>dz\<close> otherwise. The
  escape test reads the squares cached before \<open>z\<close> was updated. The loop is only entered
  with \<open>max_iter \<ge> 10\<close>, where the truncating division of C is \<open>div\<close>.
\<close>

function series_loop ::
  "real \<Rightarrow> real \<Rightarrow> int \<Rightarrow> int \<Rightarrow> Complex_d \<Rightarrow> Complex_d \<Rightarrow> (Complex_d \<times> Complex_d) option" where
  "series_loop cr ci max_iter i z dz =
     (if i < SERIES_TERMS \<and> i < max_iter div 4 then
        (let new_dz_real = 2.0 * (real_d z * real_d dz - imag_d z * imag_d dz) + 1.0;
             new_dz_imag = 2.0 * (real_d z * imag_d dz + imag_d z * real_d dz);
             dz' = \<lparr> real_d = new_dz_real, imag_d = new_dz_imag \<rparr>;
             z_real_sq = real_d z * real_d z;
             z_imag_sq = imag_d z * imag_d z;
             z' = \<lparr> real_d = z_real_sq - z_imag_sq + cr, imag_d = 2.0 * real_d z * imag_d z + ci \<rparr>
         in if z_real_sq + z_imag_sq > ESCAPE_RADIUS_SQ then None
            else series_loop cr ci max_iter (i + 1) z' dz')
      else Some (z, dz))"
  by pat_completeness auto
termination
  by (relation "measure (\<lambda>(cr, ci, max_iter, i, z, dz). nat (SERIES_TERMS - i))") auto

declare series_loop.simps [simp del]

text \<open>
  \<open>series_approximation\<close>; the failure sentinel is \<open>-1\<close> as in C. With
  \<open>z_magnitude = 0\<close> the C quotient \<open>ESCAPE_RADIUS / z_magnitude\<close> is infinite, and with
  \<open>log(dz_magnitude) = 0\<close> the estimate is a quotient by zero: in both cases the
  estimate is an infinity or a NaN, fails the acceptance test and the function returns
  \<open>-1\<close>.
\<close>

definition series_approximation :: "real \<Rightarrow> real \<Rightarrow> int \<Rightarrow> real" where
  "series_approximation cr ci max_iter =
     (if max_iter < MIN_SERIES_ITER then - 1
      else
        case series_loop cr ci max_iter 0 \<lparr> real_d = 0.0, imag_d = 0.0 \<rparr>
               \<lparr> real_d = 1.0, imag_d = 0.0 \<rparr> of
          None \<Rightarrow> - 1
        | Some (z, dz) \<Rightarrow>
            let dz_magnitude = sqrt (real_d dz * real_d dz + imag_d dz * imag_d dz)
            in if dz_magnitude > 1 / 10 ^ 10 then
                 (let z_magnitude = sqrt (real_d z * real_d z + imag_d z * imag_d z)
                  in if z_magnitude = 0 \<or> ln dz_magnitude = 0 then - 1
                     else
                       let estimated_escape = ln (ESCAPE_RADIUS / z_magnitude) / ln dz_magnitude
                       in if estimated_escape > 0
                             \<and> estimated_escape < real_of_int (max_iter - SERIES_TERMS)
                          then real_of_int SERIES_TERMS + estimated_escape
                          else - 1)
               else - 1)"

text \<open>
  The orbit of 0 under \<open>z \<mapsto> z\<^sup>2 + c\<close>, as the specification describes the seed
  iterations (section 4.2), and the number of seed iterations the loop performs.
\<close>

primrec spec_orbit :: "real \<Rightarrow> real \<Rightarrow> nat \<Rightarrow> real \<times> real" where
  "spec_orbit cr ci 0 = (0, 0)"
| "spec_orbit cr ci (Suc n) =
     (case spec_orbit cr ci n of (zr, zi) \<Rightarrow> (zr * zr - zi * zi + cr, 2 * zr * zi + ci))"

definition seed_iterations :: "int \<Rightarrow> int" where
  "seed_iterations max_iter = min SERIES_TERMS (max_iter div 4)"

definition escaped_at :: "real \<Rightarrow> real \<Rightarrow> nat \<Rightarrow> bool" where
  "escaped_at cr ci k =
     (case spec_orbit cr ci k of (zr, zi) \<Rightarrow> zr * zr + zi * zi > ESCAPE_RADIUS_SQ)"

text \<open>
  The point escapes during the seed iterations: one of the iterates that the seed loop
  tests, \<open>z\<^sub>0\<close> to \<open>z\<^sub>n\<^sub>-\<^sub>1\<close> for \<open>n\<close> seed iterations, has left the escape radius.
\<close>

definition escapes_in_seed_loop :: "real \<Rightarrow> real \<Rightarrow> int \<Rightarrow> bool" where
  "escapes_in_seed_loop cr ci max_iter =
     (\<exists>k \<in> {0 ..< nat (seed_iterations max_iter)}. escaped_at cr ci k)"

section \<open>Escape-time evaluator\<close>

text \<open>
  The main loop of \<open>calculate_mandelbrot_optimized\<close>, \<open>while (iter < max_iter)\<close> with its
  \<open>break\<close>; the result is the state \<open>(zr, zi, iter)\<close> after the loop. The new \<open>zi\<close> is
  computed from the old \<open>zr\<close>, and the new \<open>zr\<close> from the cached squares.
\<close>

function mandel_loop :: "real \<Rightarrow> real \<Rightarrow> int \<Rightarrow> real \<Rightarrow> real \<Rightarrow> int \<Rightarrow> real \<times> real \<times> int" where
  "mandel_loop cr ci max_iter zr zi iter =
     (if iter < max_iter then
        (if zr * zr + zi * zi > BAILOUT_TEST then (zr, zi, iter)
         else mandel_loop cr ci max_iter (zr * zr - zi * zi + cr) (2.0 * zr * zi + ci) (iter + 1))
      else (zr, zi, iter))"
  by pat_completeness auto
termination
  by (relation "measure (\<lambda>(cr, ci, max_iter, zr, zi, iter). nat (max_iter - iter))") auto

declare mandel_loop.simps [simp del]

text \<open>The value of \<open>iter\<close> after the main loop started from \<open>z = 0\<close>.\<close>

definition escape_iter :: "real \<Rightarrow> real \<Rightarrow> int \<Rightarrow> int" where
  "escape_iter cr ci max_iter = (case mandel_loop cr ci max_iter 0 0 0 of (zr, zi, iter) \<Rightarrow> iter)"

text \<open>
  The guard under which \<open>calculate_mandelbrot_optimized\<close> returns the series estimate:
  \<open>max_iter >= MIN_SERIES_ITER\<close> and \<open>series_result > 0\<close>.
\<close>

definition series_accepts :: "real \<Rightarrow> real \<Rightarrow> int \<Rightarrow> bool" where
  "series_accepts cr ci max_iter =
     (MIN_SERIES_ITER \<le> max_iter \<and> series_approximation cr ci max_iter > 0)"

text \<open>
  The standard iterative computation, lines 235 to 267 of
  \<open>calculate_mandelbrot_optimized\<close>: the loop and the smooth colouring value.
\<close>

definition standard_iteration :: "real \<Rightarrow> real \<Rightarrow> int \<Rightarrow> real" where
  "standard_iteration cr ci max_iter =
     (case mandel_loop cr ci max_iter 0.0 0.0 0 of
        (zr, zi, iter) \<Rightarrow>
          if iter < max_iter then
            (let final_magnitude_sq = zr * zr + zi * zi;
                 smooth_iter = real_of_int iter + 1.0 - log 2 (0.5 * ln final_magnitude_sq)
             in if smooth_iter > 0 then smooth_iter else 0)
          else real_of_int max_iter)"

text \<open>
  \<open>calculate_mandelbrot_optimized\<close> with \<open>USE_SERIES_APPROX\<close> set, as the file defines it.
  The statistics record behind the pointer \<open>stats\<close> is passed in and returned.
\<close>

definition calculate_mandelbrot_optimized ::
  "real \<Rightarrow> real \<Rightarrow> int \<Rightarrow> PerformanceStats option \<Rightarrow> real \<times> PerformanceStats option" where
  "calculate_mandelbrot_optimized cr ci max_iter stats =
     (if quick_mandelbrot_check cr ci then
        (real_of_int max_iter,
         map_option (\<lambda>s. s\<lparr> pixels_optimized := pixels_optimized s + 1 \<rparr>) stats)
      else if MIN_SERIES_ITER \<le> max_iter \<and> series_approximation cr ci max_iter > 0 then
        (series_approximation cr ci max_iter,
         map_option (\<lambda>s. s\<lparr> series_skips := series_skips s + 1 \<rparr>) stats)
      else (standard_iteration cr ci max_iter, stats))"

section \<open>Colour mappers\<close>

definition black :: Color where
  "black = \<lparr> r = 0, g = 0, b = 0 \<rparr>"

text \<open>
  The accumulation loop of \<open>map_iteration_to_color_histogram\<close>:
  \<open>for (i = 0; i <= iter_bucket && i < max_iter; i++) accumulated_count += counts[i]\<close>.
\<close>

function accumulate_counts :: "int list \<Rightarrow> int \<Rightarrow> int \<Rightarrow> int \<Rightarrow> int \<Rightarrow> fault + int" where
  "accumulate_counts cs iter_bucket max_iter i acc =
     (if i \<le> iter_bucket \<and> i < max_iter then
        (if i < 0 \<or> int (length cs) \<le> i then Inl OutOfBounds
         else accumulate_counts cs iter_bucket max_iter (i + 1) (acc + cs ! nat i))
      else Inr acc)"
  by pat_completeness auto
termination
  by (relation "measure (\<lambda>(cs, iter_bucket, max_iter, i, acc). nat (max_iter - i))") auto

declare accumulate_counts.simps [simp del]

text \<open>
  \<open>map_iteration_to_color_histogram\<close>. The division by \<open>total_pixels\<close> is a division of
  doubles: with a zero divisor it yields an infinity or a NaN, whose conversion to
  \<open>unsigned char\<close> is undefined; the model reports it as \<open>DivisionByZero\<close>.
\<close>

definition map_iteration_to_color_histogram ::
  "real \<Rightarrow> int \<Rightarrow> Histogram option \<Rightarrow> fault + Color" where
  "map_iteration_to_color_histogram smooth_iter max_iter histogram =
     (if real_of_int max_iter \<le> smooth_iter \<or> histogram = None then Inr black
      else
        let h = the histogram;
            iter_bucket0 = int_of_double smooth_iter;
            iter_bucket = (if max_iter \<le> iter_bucket0 then max_iter - 1 else iter_bucket0)
        in case accumulate_counts (counts h) iter_bucket max_iter 0 0 of
             Inl e \<Rightarrow> Inl e
           | Inr accumulated_count \<Rightarrow>
               if total_pixels h = 0 then Inl DivisionByZero
               else
                 let normalized_pos = real_of_int accumulated_count / real_of_int (total_pixels h);
                     phase1 = normalized_pos * 8.0 * pi;
                     phase2 = normalized_pos * 16.0 * pi;
                     phase3 = normalized_pos * 32.0 * pi;
                     r_component = 0.5 * (1.0 + 0.8 * cos phase1 + 0.3 * cos phase2);
                     g_component = 0.5 * (1.0 + 0.8 * cos (phase1 + 2.0 * pi / 3.0) + 0.3 * sin phase2);
                     b_component = 0.5 * (1.0 + 0.8 * cos (phase1 + 4.0 * pi / 3.0) + 0.3 * cos phase3);
                     brightness = 0.3 + 0.7 * (normalized_pos powr 0.8)
                 in Inr \<lparr> r = uchar_of_double (255.0 * min 1.0 (r_component * brightness)),
                          g = uchar_of_double (255.0 * min 1.0 (g_component * brightness)),
                          b = uchar_of_double (255.0 * min 1.0 (b_component * brightness)) \<rparr>)"

text \<open>\<open>map_iteration_to_color_standard\<close>.\<close>

definition map_iteration_to_color_standard :: "real \<Rightarrow> int \<Rightarrow> Color" where
  "map_iteration_to_color_standard smooth_iter max_iter =
     (if real_of_int max_iter \<le> smooth_iter then black
      else
        let t = smooth_iter / real_of_int max_iter;
            hue_cycles = 4.0;
            phase = t * hue_cycles * 2.0 * pi;
            r_component = 0.5 * (1.0 + cos phase);
            g_component = 0.5 * (1.0 + cos (phase + 2.0 * pi / 3.0));
            b_component = 0.5 * (1.0 + cos (phase + 4.0 * pi / 3.0));
            brightness = (1.0 - t) powr 0.4
        in \<lparr> r = uchar_of_double (255.0 * r_component * brightness),
             g = uchar_of_double (255.0 * g_component * brightness),
             b = uchar_of_double (255.0 * b_component * brightness) \<rparr>)"

section \<open>Histogram builder\<close>

text \<open>
  The body of the loop of \<open>build_histogram\<close> for one pixel value: the bucket
  \<open>(int)iteration_data[i]\<close> is counted when it is below \<open>max_iter\<close>. The C code does not
  test the bucket against 0; a negative bucket is a write before the array.
\<close>

definition count_pixel :: "Histogram \<Rightarrow> real \<Rightarrow> int \<Rightarrow> fault + Histogram" where
  "count_pixel hist v max_iter =
     (let iter_bucket = int_of_double v
      in if iter_bucket < max_iter then
           (if iter_bucket < 0 \<or> int (length (counts hist)) \<le> iter_bucket then Inl OutOfBounds
            else
              let c = counts hist ! nat iter_bucket + 1;
                  hist1 = hist\<lparr> counts := (counts hist)[nat iter_bucket := c],
                               total_pixels := total_pixels hist + 1 \<rparr>
              in Inr (if c > max_count hist1 then hist1\<lparr> max_count := c \<rparr> else hist1))
         else Inr hist)"

text \<open>The loop \<open>for (int i = 0; i < width * height; i++)\<close>, with \<open>n = width * height\<close>.\<close>

function histogram_loop :: "real list \<Rightarrow> int \<Rightarrow> int \<Rightarrow> int \<Rightarrow> Histogram \<Rightarrow> fault + Histogram" where
  "histogram_loop iteration_data n max_iter i hist =
     (if i < n then
        (if i < 0 \<or> int (length iteration_data) \<le> i then Inl OutOfBounds
         else case count_pixel hist (iteration_data ! nat i) max_iter of
                Inl e \<Rightarrow> Inl e
              | Inr hist' \<Rightarrow> histogram_loop iteration_data n max_iter (i + 1) hist')
      else Inr hist)"
  by pat_completeness auto
termination
  by (relation "measure (\<lambda>(iteration_data, n, max_iter, i, hist). nat (n - i))") auto

declare histogram_loop.simps [simp del]

text \<open>
  \<open>build_histogram\<close>. The two booleans say whether \<open>malloc\<close> and \<open>calloc\<close> succeed; the
  result \<open>None\<close> is the \<open>NULL\<close> pointer.
\<close>

definition build_histogram ::
  "bool \<Rightarrow> bool \<Rightarrow> real list \<Rightarrow> int \<Rightarrow> int \<Rightarrow> int \<Rightarrow> fault + Histogram option" where
  "build_histogram malloc_ok calloc_ok iteration_data w h max_iter =
     (if \<not> malloc_ok then Inr None
      else if \<not> calloc_ok then Inr None
      else
        case histogram_loop iteration_data (w * h) max_iter 0
               \<lparr> counts = replicate (nat max_iter) 0, total_pixels = 0, max_count = 0 \<rparr> of
          Inl e \<Rightarrow> Inl e
        | Inr hist \<Rightarrow> Inr (Some hist))"

section \<open>The two phases of \<open>generate_mandelbrot\<close>\<close>

text \<open>
  What the run depends on besides its parameters: whether each allocation succeeds, the
  contents of freshly allocated memory, and whether the PNG writer succeeds.
\<close>

record Environment =
  malloc_image_ok :: bool
  malloc_iteration_ok :: bool
  malloc_histogram_ok :: bool
  calloc_counts_ok :: bool
  image_garbage :: "nat \<Rightarrow> 8 word"
  iteration_garbage :: "nat \<Rightarrow> real"
  png_write_ok :: bool

text \<open>An array write \<open>xs[i] = v\<close>.\<close>

definition store :: "'a list \<Rightarrow> int \<Rightarrow> 'a \<Rightarrow> fault + 'a list" where
  "store xs i v = (if 0 \<le> i \<and> i < int (length xs) then Inr (xs[nat i := v]) else Inl OutOfBounds)"

text \<open>
  The scale factors \<open>(x_max - x_min) / (width - 1)\<close> and the pixel coordinates
  \<open>x_min + px * x_scale\<close>. With \<open>width = 1\<close> the quotient is a division by zero, an
  infinity or a NaN in C; the only column is then \<open>px = 0\<close> and the coordinate is a NaN,
  written \<open>None\<close>.
\<close>

definition pixel_scale :: "real \<Rightarrow> real \<Rightarrow> int \<Rightarrow> real option" where
  "pixel_scale lo hi n =
     (if n - 1 = 0 then None else Some ((hi - lo) / real_of_int (n - 1)))"

definition pixel_coordinate :: "real \<Rightarrow> int \<Rightarrow> real option \<Rightarrow> real option" where
  "pixel_coordinate lo k scale = map_option (\<lambda>sc. lo + real_of_int k * sc) scale"

text \<open>
  The call of \<open>calculate_mandelbrot_optimized\<close> on pixel coordinates. On a NaN
  coordinate every comparison of the evaluator is false: the point is not fast-rejected,
  the series approximation returns \<open>-1\<close>, the main loop never breaks, and the result is
  \<open>max_iter\<close> with the statistics unchanged.
\<close>

definition evaluate_pixel ::
  "real option \<Rightarrow> real option \<Rightarrow> int \<Rightarrow> PerformanceStats option \<Rightarrow> real \<times> PerformanceStats option" where
  "evaluate_pixel cr ci max_iter stats =
     (case (cr, ci) of
        (Some cr', Some ci') \<Rightarrow> calculate_mandelbrot_optimized cr' ci' max_iter stats
      | _ \<Rightarrow> (real_of_int max_iter, stats))"

text \<open>
  The computation phase as the program runs it without OpenMP: the inner loop over the
  columns \<open>px\<close> of a row, and the outer loop over the rows \<open>py\<close>. The progress report is
  left out.
\<close>

function compute_row ::
  "MandelbrotParams \<Rightarrow> real option \<Rightarrow> real option \<Rightarrow> int \<Rightarrow> int \<Rightarrow> real list \<Rightarrow>
   PerformanceStats option \<Rightarrow> fault + (real list \<times> PerformanceStats option)" where
  "compute_row params x_scale ci py px iteration_data stats =
     (if px < width params then
        (case store iteration_data (py * width params + px)
                (fst (evaluate_pixel (pixel_coordinate (x_min params) px x_scale) ci
                        (max_iterations params) stats)) of
           Inl e \<Rightarrow> Inl e
         | Inr iteration_data' \<Rightarrow>
             compute_row params x_scale ci py (px + 1) iteration_data'
               (snd (evaluate_pixel (pixel_coordinate (x_min params) px x_scale) ci
                       (max_iterations params) stats)))
      else Inr (iteration_data, stats))"
  by pat_completeness auto
termination
  by (relation "measure (\<lambda>(params, x_scale, ci, py, px, iteration_data, stats).
        nat (width params - px))") auto

declare compute_row.simps [simp del]

function compute_rows ::
  "MandelbrotParams \<Rightarrow> real option \<Rightarrow> real option \<Rightarrow> int \<Rightarrow> real list \<Rightarrow>
   PerformanceStats option \<Rightarrow> fault + (real list \<times> PerformanceStats option)" where
  "compute_rows params x_scale y_scale py iteration_data stats =
     (if py < height params then
        (case compute_row params x_scale (pixel_coordinate (y_min params) py y_scale) py 0
                iteration_data stats of
           Inl e \<Rightarrow> Inl e
         | Inr (iteration_data', stats') \<Rightarrow>
             compute_rows params x_scale y_scale (py + 1) iteration_data' stats')
      else Inr (iteration_data, stats))"
  by pat_completeness auto
termination
  by (relation "measure (\<lambda>(params, x_scale, y_scale, py, iteration_data, stats).
        nat (height params - py))") auto

declare compute_rows.simps [simp del]

text \<open>The three channel writes of one pixel at \<open>pixel_base = i * 3\<close>.\<close>

definition store_pixel :: "8 word list \<Rightarrow> int \<Rightarrow> Color \<Rightarrow> fault + 8 word list" where
  "store_pixel image_data pixel_base pixel_color =
     (case store image_data pixel_base (r pixel_color) of
        Inl e \<Rightarrow> Inl e
      | Inr d1 \<Rightarrow>
          (case store d1 (pixel_base + 1) (g pixel_color) of
             Inl e \<Rightarrow> Inl e
           | Inr d2 \<Rightarrow> store d2 (pixel_base + 2) (b pixel_color)))"

text \<open>
  The colouring loop \<open>for (int i = 0; i < total_pixels; i++)\<close>; \<open>n_pixels\<close> is the local
  variable \<open>total_pixels\<close> of \<open>generate_mandelbrot\<close>.
\<close>

function color_loop ::
  "real list \<Rightarrow> int \<Rightarrow> Histogram option \<Rightarrow> int \<Rightarrow> int \<Rightarrow> 8 word list \<Rightarrow> fault + 8 word list" where
  "color_loop iteration_data max_iter histogram n_pixels i image_data =
     (if i < n_pixels then
        (if i < 0 \<or> int (length iteration_data) \<le> i then Inl OutOfBounds
         else
           case (if histogram \<noteq> None
                 then map_iteration_to_color_histogram (iteration_data ! nat i) max_iter histogram
                 else Inr (map_iteration_to_color_standard (iteration_data ! nat i) max_iter)) of
             Inl e \<Rightarrow> Inl e
           | Inr pixel_color \<Rightarrow>
               (case store_pixel image_data (i * 3) pixel_color of
                  Inl e \<Rightarrow> Inl e
                | Inr image_data' \<Rightarrow>
                    color_loop iteration_data max_iter histogram n_pixels (i + 1) image_data'))
      else Inr image_data)"
  by pat_completeness auto
termination
  by (relation "measure (\<lambda>(iteration_data, max_iter, histogram, n_pixels, i, image_data).
        nat (n_pixels - i))") auto

declare color_loop.simps [simp del]

text \<open>
  \<open>generate_mandelbrot\<close>. The result is the returned int together with the pixel buffer
  handed to the PNG writer, if the run reaches it. Printing and timing are left out.
\<close>

definition generate_mandelbrot ::
  "Environment \<Rightarrow> MandelbrotParams \<Rightarrow> fault + (int \<times> 8 word list option)" where
  "generate_mandelbrot env params =
     (if \<not> malloc_image_ok env \<or> \<not> malloc_iteration_ok env then Inr (0, None)
      else
        let image_data = map (image_garbage env) [0 ..< nat (width params * height params * 3)];
            iteration_data = map (iteration_garbage env) [0 ..< nat (width params * height params)];
            stats = \<lparr> total_time = 0, pixels_per_second = 0, pixels_optimized = 0,
                      series_skips = 0 \<rparr>;
            n_pixels = width params * height params;
            x_scale = pixel_scale (x_min params) (x_max params) (width params);
            y_scale = pixel_scale (y_min params) (y_max params) (height params)
        in case compute_rows params x_scale y_scale 0 iteration_data (Some stats) of
             Inl e \<Rightarrow> Inl e
           | Inr (iteration_data', stats') \<Rightarrow>
               (case (if use_histogram params \<noteq> 0
                      then build_histogram (malloc_histogram_ok env) (calloc_counts_ok env)
                             iteration_data' (width params) (height params)
                             (max_iterations params)
                      else Inr None) of
                  Inl e \<Rightarrow> Inl e
                | Inr histogram \<Rightarrow>
                    (case color_loop iteration_data' (max_iterations params) histogram
                            n_pixels 0 image_data of
                       Inl e \<Rightarrow> Inl e
                     | Inr image_data' \<Rightarrow>
                         if png_write_ok env then Inr (1, Some image_data')
                         else Inr (0, Some image_data'))))"

section \<open>The computation phase under OpenMP\<close>

text \<open>
  The value that the computation phase stores for the pixel in row \<open>py\<close> and column
  \<open>px\<close>, and the buffer that holds this value at every pixel index.
\<close>

definition pixel_value :: "MandelbrotParams \<Rightarrow> int \<Rightarrow> int \<Rightarrow> real" where
  "pixel_value params py px =
     fst (evaluate_pixel
            (pixel_coordinate (x_min params) px
               (pixel_scale (x_min params) (x_max params) (width params)))
            (pixel_coordinate (y_min params) py
               (pixel_scale (y_min params) (y_max params) (height params)))
            (max_iterations params) None)"

definition evaluated_buffer :: "MandelbrotParams \<Rightarrow> real list" where
  "evaluated_buffer params =
     map (\<lambda>j. pixel_value params (int j div width params) (int j mod width params))
       [0 ..< nat (width params * height params)]"

text \<open>
  Under \<open>#pragma omp parallel for schedule(dynamic, 16)\<close> the rows are cut into chunks of
  16 consecutive rows, each chunk is executed by one thread of the team, and the threads
  run concurrently. A thread's work is the sequence of the writes
  \<open>iteration_data[py * width + px] = smooth_iter\<close> of its chunks; a parallel run is an
  interleaving of the threads' sequences. The shared statistics counters, which the
  threads update without synchronisation, are not part of this model.
\<close>

definition row_writes :: "MandelbrotParams \<Rightarrow> int \<Rightarrow> (int \<times> real) list" where
  "row_writes params py =
     map (\<lambda>px. (py * width params + px, pixel_value params py px)) [0 .. width params - 1]"

definition omp_num_chunks :: "int \<Rightarrow> nat" where
  "omp_num_chunks h = nat ((h + 15) div 16)"

definition omp_chunk :: "int \<Rightarrow> nat \<Rightarrow> int list" where
  "omp_chunk h k = [16 * int k .. min (16 * int k + 15) (h - 1)]"

definition thread_writes :: "MandelbrotParams \<Rightarrow> (nat \<Rightarrow> nat) \<Rightarrow> nat \<Rightarrow> (int \<times> real) list" where
  "thread_writes params owner t =
     concat (map (\<lambda>k. concat (map (row_writes params) (omp_chunk (height params) k)))
               (filter (\<lambda>k. owner k = t) [0 ..< omp_num_chunks (height params)]))"

inductive interleaving :: "'a list list \<Rightarrow> 'a list \<Rightarrow> bool" where
  finished: "\<forall>w \<in> set ws. w = [] \<Longrightarrow> interleaving ws []"
| step: "t < length ws \<Longrightarrow> ws ! t = x # rest \<Longrightarrow> interleaving (ws[t := rest]) tr
         \<Longrightarrow> interleaving ws (x # tr)"

fun apply_writes :: "(int \<times> real) list \<Rightarrow> real list \<Rightarrow> fault + real list" where
  "apply_writes [] buf = Inr buf"
| "apply_writes ((i, v) # tr) buf =
     (case store buf i v of Inl e \<Rightarrow> Inl e | Inr buf' \<Rightarrow> apply_writes tr buf')"

text \<open>
  A parallel run of the computation phase with \<open>nthreads\<close> threads: \<open>owner\<close> says which
  thread executes each chunk, \<open>tr\<close> is the order in which the writes reach the buffer.
\<close>

definition parallel_schedule :: "MandelbrotParams \<Rightarrow> nat \<Rightarrow> (nat \<Rightarrow> nat) \<Rightarrow> (int \<times> real) list \<Rightarrow> bool" where
  "parallel_schedule params nthreads owner tr =
     ((\<forall>k < omp_num_chunks (height params). owner k < nthreads)
      \<and> interleaving (map (thread_writes params owner) [0 ..< nthreads]) tr)"

section \<open>The pixel buffer under the standard mapping\<close>

text \<open>
  The three bytes of a pixel in the order in which \<open>generate_mandelbrot\<close> stores them,
  and the complete pixel buffer in which every pixel carries the standard colour of its
  iteration result.
\<close>

definition color_bytes :: "Color \<Rightarrow> 8 word list" where
  "color_bytes c = [r c, g c, b c]"

definition standard_image :: "MandelbrotParams \<Rightarrow> 8 word list" where
  "standard_image params =
     concat (map (\<lambda>v. color_bytes (map_iteration_to_color_standard v (max_iterations params)))
               (evaluated_buffer params))"

text \<open>
  A small frame used as a concrete instance: 2 columns and 17 rows, hence two chunks of
  rows, with the bounds that \<open>init_parameters\<close> computes for the default centre and
  zoom.
\<close>

definition demo_params :: MandelbrotParams where
  "demo_params =
     \<lparr> width = 2, height = 17, max_iterations = 10, num_threads = 8, zoom = 1,
       center_x = - 1 / 2, center_y = 0, x_min = - 23 / 34, x_max = - 11 / 34,
       y_min = - 3 / 2, y_max = 3 / 2, output_filename = ''ffpga.png'',
       use_histogram = 1, series_approx = 1 \<rparr>"

text \<open>
  An environment in which the allocation of the histogram fails and everything else
  succeeds.
\<close>

definition demo_env :: Environment where
  "demo_env =
     \<lparr> malloc_image_ok = True, malloc_iteration_ok = True, malloc_histogram_ok = False,
       calloc_counts_ok = True, image_garbage = (\<lambda>k. 0), iteration_garbage = (\<lambda>k. 0),
       png_write_ok = True \<rparr>"

section \<open>Theorems\<close>

text \<open>
  Claim C8. For every iteration result \<open>res\<close> with \<open>res \<ge> maxIterations\<close> and every
  \<open>maxIterations > 0\<close>, both colour mappers return the RGB triple \<open>(0, 0, 0)\<close>; the
  histogram mapper does so for every histogram, the \<open>NULL\<close> one included.
\<close>

theorem set_member_maps_to_black:
  assumes "0 < max_iter" and "real_of_int max_iter \<le> res"
  shows "map_iteration_to_color_standard res max_iter = \<lparr> r = 0, g = 0, b = 0 \<rparr>
       \<and> map_iteration_to_color_histogram res max_iter histogram = Inr \<lparr> r = 0, g = 0, b = 0 \<rparr>"
  using assms
  by (simp add: map_iteration_to_color_standard_def map_iteration_to_color_histogram_def black_def)

theorem set_member_maps_to_black_witness:
  "(0::int) < 100 \<and> real_of_int 100 \<le> 100
   \<and> map_iteration_to_color_standard 100 100 = \<lparr> r = 0, g = 0, b = 0 \<rparr>
   \<and> map_iteration_to_color_histogram 100 100
        (Some \<lparr> counts = replicate 100 0, total_pixels = 0, max_count = 0 \<rparr>)
      = Inr \<lparr> r = 0, g = 0, b = 0 \<rparr>"
  using set_member_maps_to_black [of 100 100
      "Some \<lparr> counts = replicate 100 0, total_pixels = 0, max_count = 0 \<rparr>"]
  by simp

subsection \<open>Fast-rejection detector\<close>

text \<open>
  As formulas over the reals, the test of \<open>quick_mandelbrot_check\<close> is the closed form of
  the specification (section 4.1): with \<open>q = (cr - 0.25)\<^sup>2 + ci\<^sup>2\<close>, either
  \<open>q * (q + (cr - 0.25)) < 0.25 * ci\<^sup>2\<close> or \<open>(cr + 1)\<^sup>2 + ci\<^sup>2 < 0.0625\<close>. This is a
  statement about exact arithmetic. The program evaluates the same expressions in
  doubles, where a product can underflow or round, and its answer differs from the exact
  test at points within the rounding error of the boundary.
\<close>

lemma quick_mandelbrot_check_exact_arithmetic:
  "quick_mandelbrot_check cr ci = spec_isDefinitelyInSet cr ci"
  by (simp add: quick_mandelbrot_check_def spec_isDefinitelyInSet_def spec_main_cardioid_def
      spec_period2_bulb_def Let_def power2_eq_square)

text \<open>
  Claim C7 says that the fast-rejection predicate returns true exactly when a closed-form
  test of the specification holds. The predicate \<open>quick_ffpga_check\<close> of the older
  variant C-FFPGA/ffpga.c breaks it in both directions: it tests a disc around \<open>-1\<close> cut
  by a cardioid curve and a disc around \<open>-1.25\<close>. At \<open>(-11/8, 3/16)\<close> it returns true
  although neither closed-form test holds, and at the origin it returns false although
  the main cardioid test holds. Every intermediate value of the two evaluations is a
  dyadic number that a double holds exactly, so the program computes what is evaluated
  here.
\<close>

theorem quick_ffpga_check_disagrees_with_closed_form:
  "quick_ffpga_check (- 11 / 8) (3 / 16) \<and> \<not> spec_isDefinitelyInSet (- 11 / 8) (3 / 16)
   \<and> \<not> quick_ffpga_check 0 0 \<and> spec_isDefinitelyInSet 0 0"
  by (simp add: quick_ffpga_check_def spec_isDefinitelyInSet_def spec_main_cardioid_def
      spec_period2_bulb_def Let_def power2_eq_square)

text \<open>
  The point \<open>(-11/8, 3/16)\<close> that \<open>quick_ffpga_check\<close> accepts is not in the set: the
  seventh iterate of its orbit has left the escape radius 2.
\<close>

lemma quick_ffpga_check_accepts_escaping_point:
  "quick_ffpga_check (- 11 / 8) (3 / 16) \<and> escaped_at (- 11 / 8) (3 / 16) 7"
  by (simp add: quick_ffpga_check_def Let_def escaped_at_def ESCAPE_RADIUS_SQ_def
      eval_nat_numeral)

subsection \<open>The main loop and the smooth value\<close>





subsection \<open>Series approximation\<close>

lemma series_approximation_cases:
  "series_approximation cr ci max_iter = - 1 \<or>
   (MIN_SERIES_ITER \<le> max_iter \<and> (\<exists>est. series_approximation cr ci max_iter = real_of_int SERIES_TERMS + est \<and> 0 < est
      \<and> est < real_of_int (max_iter - SERIES_TERMS)))"
  by (auto simp add: series_approximation_def Let_def split: option.splits prod.splits)

lemma series_loop_escape:
  "0 \<le> i \<Longrightarrow> (real_d z, imag_d z) = spec_orbit cr ci (nat i) \<Longrightarrow>
   nat i \<le> k \<Longrightarrow> int k < seed_iterations max_iter \<Longrightarrow> escaped_at cr ci k \<Longrightarrow>
   series_loop cr ci max_iter i z dz = None"
proof (induction cr ci max_iter i z dz rule: series_loop.induct)
  case (1 cr ci max_iter i z dz)
  note k = "1.prems"(3,4,5)
  from k(1,2) "1.prems"(1) have cond: "i < SERIES_TERMS \<and> i < max_iter div 4"
    unfolding seed_iterations_def by linarith
  show ?case
  proof (cases "real_d z * real_d z + imag_d z * imag_d z > ESCAPE_RADIUS_SQ")
    case True
    with cond show ?thesis by (subst series_loop.simps) (simp add: Let_def)
  next
    case False
    have "k \<noteq> nat i"
    proof
      assume "k = nat i"
      with k(3) "1.prems"(2) [symmetric] False show False by (simp add: escaped_at_def)
    qed
    with k(1) have k': "nat (i + 1) \<le> k" using "1.prems"(1) by linarith
    have nat_eq: "nat (i + 1) = Suc (nat i)" using "1.prems"(1) by linarith
    let ?z' = "\<lparr> real_d = real_d z * real_d z - imag_d z * imag_d z + cr,
                imag_d = 2.0 * real_d z * imag_d z + ci \<rparr>"
    let ?dz' = "\<lparr> real_d = 2.0 * (real_d z * real_d dz - imag_d z * imag_d dz) + 1.0,
                 imag_d = 2.0 * (real_d z * imag_d dz + imag_d z * real_d dz) \<rparr>"
    have orb: "(real_d ?z', imag_d ?z') = spec_orbit cr ci (nat (i + 1))"
      unfolding nat_eq using "1.prems"(2) [symmetric] by simp
    have nonneg: "0 \<le> i + 1" using "1.prems"(1) by simp
    note IH = "1.IH" [OF cond refl refl refl refl refl refl False nonneg orb k' k(2,3)]
    have "series_loop cr ci max_iter i z dz = series_loop cr ci max_iter (i + 1) ?z' ?dz'"
      using cond False by (subst series_loop.simps) (simp add: Let_def)
    with IH show ?thesis by simp
  qed
qed

lemma escapes_in_seed_loop_fails:
  assumes "escapes_in_seed_loop cr ci max_iter"
  shows "series_approximation cr ci max_iter = - 1"
proof (cases "max_iter < MIN_SERIES_ITER")
  case True
  then show ?thesis by (simp add: series_approximation_def)
next
  case False
  from assms obtain k where k: "k < nat (seed_iterations max_iter)" "escaped_at cr ci k"
    by (auto simp add: escapes_in_seed_loop_def)
  have "series_loop cr ci max_iter 0 \<lparr> real_d = 0.0, imag_d = 0.0 \<rparr>
               \<lparr> real_d = 1.0, imag_d = 0.0 \<rparr> = None"
    using k by (intro series_loop_escape [where k = k]) simp_all
  with False show ?thesis by (simp add: series_approximation_def)
qed

lemma series_approximation_from_loop:
  assumes "MIN_SERIES_ITER \<le> max_iter"
    and "series_loop cr ci max_iter 0 \<lparr> real_d = 0, imag_d = 0 \<rparr> \<lparr> real_d = 1, imag_d = 0 \<rparr>
           = Some (z, dz)"
    and "dzm = sqrt (real_d dz * real_d dz + imag_d dz * imag_d dz)"
    and "zm = sqrt (real_d z * real_d z + imag_d z * imag_d z)"
    and "1 / 10 ^ 10 < dzm" and "zm \<noteq> 0" and "ln dzm \<noteq> 0"
    and "est = ln (ESCAPE_RADIUS / zm) / ln dzm"
    and "0 < est" and "est < real_of_int (max_iter - SERIES_TERMS)"
  shows "series_approximation cr ci max_iter = real_of_int SERIES_TERMS + est"
  using assms by (auto simp add: series_approximation_def Let_def)

lemma series_2_2: "series_approximation 2 2 max_iter = - 1"
proof (cases "max_iter < MIN_SERIES_ITER")
  case True
  then show ?thesis by (simp add: series_approximation_def)
next
  case False
  then have "1 < max_iter div 4" by (simp add: MIN_SERIES_ITER_def)
  then have "series_loop 2 2 max_iter 0 \<lparr> real_d = 0.0, imag_d = 0.0 \<rparr>
               \<lparr> real_d = 1.0, imag_d = 0.0 \<rparr> = None"
    by (simp add: series_loop.simps SERIES_TERMS_def ESCAPE_RADIUS_SQ_def Let_def)
  with False show ?thesis by (simp add: series_approximation_def)
qed

lemma series_0_1_10:
  "\<exists>e. series_approximation 0 1 10 = 8 + e \<and> 0 < e \<and> e < 1"
proof -
  define e where "e = ln (2::real) / ln 5"
  have l: "series_loop 0 1 10 0 \<lparr> real_d = 0, imag_d = 0 \<rparr> \<lparr> real_d = 1, imag_d = 0 \<rparr>
      = Some (\<lparr> real_d = -1, imag_d = 1 \<rparr>, \<lparr> real_d = 1, imag_d = 2 \<rparr>)"
    by (simp add: series_loop.simps SERIES_TERMS_def ESCAPE_RADIUS_SQ_def Let_def)
  have s2: "2 / sqrt 2 = sqrt (2::real)" by (rule real_div_sqrt) simp
  have l2: "ln (sqrt 2) = ln (2::real) / 2" by (rule ln_sqrt) simp
  have l5: "ln (sqrt 5) = ln (5::real) / 2" by (rule ln_sqrt) simp
  have p2: "0 < ln (2::real)" by simp
  have "ln (2::real) < ln 5" by (subst ln_less_cancel_iff) simp_all
  with p2 have e: "0 < e" "e < 1" by (simp_all add: e_def)
  have quot: "e = ln (ESCAPE_RADIUS / sqrt 2) / ln (sqrt (5::real))"
    unfolding ESCAPE_RADIUS_def s2 l2 l5 e_def using p2 by simp
  have big: "1 / 10 ^ 10 < sqrt (5::real)"
  proof -
    have "(1::real) / 10 ^ 10 < 1" by simp
    also have "(1::real) < sqrt 5" by simp
    finally show ?thesis .
  qed
  have nz: "sqrt (2::real) \<noteq> 0" "ln (sqrt (5::real)) \<noteq> 0" using l5 by simp_all
  have "series_approximation 0 1 10 = real_of_int SERIES_TERMS + e"
  proof (rule series_approximation_from_loop [OF _ l _ _ big nz quot])
    show "MIN_SERIES_ITER \<le> 10" by (simp add: MIN_SERIES_ITER_def)
    show "sqrt (5::real) = sqrt (real_d \<lparr> real_d = 1, imag_d = 2 \<rparr> * real_d \<lparr> real_d = 1, imag_d = 2 \<rparr>
        + imag_d \<lparr> real_d = 1, imag_d = 2 \<rparr> * imag_d \<lparr> real_d = 1, imag_d = 2 \<rparr>)" by simp
    show "sqrt (2::real) = sqrt (real_d \<lparr> real_d = - 1, imag_d = 1 \<rparr> * real_d \<lparr> real_d = - 1, imag_d = 1 \<rparr>
        + imag_d \<lparr> real_d = - 1, imag_d = 1 \<rparr> * imag_d \<lparr> real_d = - 1, imag_d = 1 \<rparr>)" by simp
    show "0 < e" by (rule e)
    show "e < real_of_int (10 - SERIES_TERMS)" using e by (simp add: SERIES_TERMS_def)
  qed
  then show ?thesis using e by (auto simp add: SERIES_TERMS_def)
qed

lemma series_accepts_0_1_10: "series_accepts 0 1 10"
proof -
  from series_0_1_10 obtain e where "series_approximation 0 1 10 = 8 + e" "0 < e" by blast
  then show ?thesis by (simp add: series_accepts_def MIN_SERIES_ITER_def)
qed

lemma escaped_at_2_2: "escapes_in_seed_loop 2 2 10"
proof -
  have "escaped_at 2 2 1" by (simp add: escaped_at_def ESCAPE_RADIUS_SQ_def)
  moreover have "(1::nat) \<in> {0 ..< nat (seed_iterations 10)}"
    by (simp add: seed_iterations_def SERIES_TERMS_def)
  ultimately show ?thesis unfolding escapes_in_seed_loop_def by blast
qed

text \<open>
  In exact arithmetic: if one of the iterates that the seed loop tests has a squared
  magnitude above \<open>ESCAPE_RADIUS_SQ\<close>, \<open>series_approximation\<close> returns the failure
  sentinel \<open>-1\<close>; on that sentinel the caller \<open>calculate_mandelbrot_optimized\<close> falls
  through to the full iteration (for a point that is not fast-rejected); and every other
  value it returns is \<open>SERIES_TERMS + est\<close> with \<open>0 < est < max_iter - SERIES_TERMS\<close>. The
  last iterate that the seed loop computes is not tested by it. The strict bound on the
  sum is a property of the exact sum only, as the theorem that follows shows.
\<close>

lemma series_estimate_exact_arithmetic:
  "(escapes_in_seed_loop cr ci max_iter \<longrightarrow> series_approximation cr ci max_iter = - 1)
 \<and> (series_approximation cr ci max_iter = - 1 \<and> \<not> quick_mandelbrot_check cr ci
       \<longrightarrow> calculate_mandelbrot_optimized cr ci max_iter stats
            = (standard_iteration cr ci max_iter, stats))
 \<and> (series_approximation cr ci max_iter \<noteq> - 1
       \<longrightarrow> (\<exists>est. series_approximation cr ci max_iter = real_of_int SERIES_TERMS + est
                  \<and> 0 < est \<and> est < real_of_int (max_iter - SERIES_TERMS))
           \<and> series_approximation cr ci max_iter < real_of_int max_iter)"
proof (intro conjI impI)
  assume "escapes_in_seed_loop cr ci max_iter"
  then show "series_approximation cr ci max_iter = - 1" by (rule escapes_in_seed_loop_fails)
next
  assume "series_approximation cr ci max_iter = - 1 \<and> \<not> quick_mandelbrot_check cr ci"
  then show "calculate_mandelbrot_optimized cr ci max_iter stats
            = (standard_iteration cr ci max_iter, stats)"
    by (simp add: calculate_mandelbrot_optimized_def)
next
  assume "series_approximation cr ci max_iter \<noteq> - 1"
  with series_approximation_cases [of cr ci max_iter]
  show ex: "\<exists>est. series_approximation cr ci max_iter = real_of_int SERIES_TERMS + est
                  \<and> 0 < est \<and> est < real_of_int (max_iter - SERIES_TERMS)" by blast
  then obtain est where "series_approximation cr ci max_iter = real_of_int SERIES_TERMS + est"
    "est < real_of_int (max_iter - SERIES_TERMS)" by blast
  then show "series_approximation cr ci max_iter < real_of_int max_iter" by simp
qed

lemma series_loop_real_axis:
  assumes "c * c \<le> 4"
  shows "series_loop c 0 10 0 \<lparr> real_d = 0, imag_d = 0 \<rparr> \<lparr> real_d = 1, imag_d = 0 \<rparr>
      = Some (\<lparr> real_d = c * c + c, imag_d = 0 \<rparr>, \<lparr> real_d = 2 * c + 1, imag_d = 0 \<rparr>)"
  using assms
  by (simp add: series_loop.simps SERIES_TERMS_def ESCAPE_RADIUS_SQ_def Let_def)

lemma ln_lower_bound:
  assumes "0 < (d::real)" shows "1 - 1 / d \<le> ln d"
proof -
  have "ln (1 / d) \<le> 1 / d - 1" using assms by (intro ln_le_minus_one) simp
  then show ?thesis using assms by (simp add: ln_div)
qed

lemma series_real_axis_estimate:
  assumes c: "0 < c" "c * c \<le> 4"
    and zm: "c * c + c < 2"
    and above: "2 < (c * c + c) * ((2 * c + 1) * (2 * c + 1))"
    and close: "(c * c + c) * ((2 * c + 1) * (2 * c + 1)) / 2 - 1 < (1 - 1 / (2 * c + 1)) / 2 ^ 50"
  shows "\<exists>est. series_approximation c 0 10 = real_of_int SERIES_TERMS + est
          \<and> 2 - 1 / 2 ^ 50 < est \<and> est < 2"
proof -
  define z where "z = c * c + c"
  define d where "d = 2 * c + 1"
  define est where "est = ln (ESCAPE_RADIUS / z) / ln d"
  have zpos: "0 < z" unfolding z_def using c(1) by (intro add_pos_pos mult_pos_pos)
  have dgt: "1 < d" using c(1) by (simp add: d_def)
  have lnd: "0 < ln d" using dgt by simp
  have w1: "2 < z * (d * d)" using above by (simp add: z_def d_def)
  have "ln (ESCAPE_RADIUS / z) < ln (d * d)"
  proof -
    have dd: "0 < d * d" using dgt by simp
    have "2 / z < d * d" using zpos w1 by (simp add: field_simps)
    moreover have "0 < 2 / z" using zpos by simp
    ultimately show ?thesis unfolding ESCAPE_RADIUS_def using dd by (subst ln_less_cancel_iff)
  qed
  also have "ln (d * d) = 2 * ln d" using dgt by (simp add: ln_mult)
  finally have lt2: "est < 2" using lnd by (simp add: est_def field_simps)
  let ?w = "z * (d * d) / 2"
  have wgt: "1 < ?w" using w1 by simp
  have "ln ?w \<le> ?w - 1" using wgt by (intro ln_le_minus_one) simp
  also have "\<dots> < (1 - 1 / d) / 2 ^ 50" using close by (simp add: z_def d_def)
  also have "\<dots> \<le> ln d / 2 ^ 50" using ln_lower_bound [of d] dgt by (simp add: divide_right_mono)
  finally have lw: "ln ?w < ln d / 2 ^ 50" .
  have "ln ?w = ln (d * d) - ln (ESCAPE_RADIUS / z)"
  proof -
    have e: "?w = (d * d) / (ESCAPE_RADIUS / z)" using zpos by (simp add: ESCAPE_RADIUS_def)
    have p1: "0 < d * d" using dgt by simp
    have p2: "0 < ESCAPE_RADIUS / z" using zpos by (simp add: ESCAPE_RADIUS_def)
    have "ln ((d * d) / (ESCAPE_RADIUS / z)) = ln (d * d) - ln (ESCAPE_RADIUS / z)"
      by (rule ln_divide_pos [OF p1 p2])
    then show ?thesis unfolding e .
  qed
  moreover have "ln (d * d) = 2 * ln d" using dgt by (simp add: ln_mult)
  moreover have "ln (ESCAPE_RADIUS / z) = est * ln d" using lnd by (simp add: est_def)
  ultimately have "ln ?w = 2 * ln d - est * ln d" by simp
  with lw have "(2 - est) * ln d < (1 / 2 ^ 50) * ln d" by (simp add: algebra_simps)
  then have gt: "2 - 1 / 2 ^ 50 < est" using lnd by (simp add: mult_less_cancel_right)
  have pos: "0 < est" using gt by (simp add: algebra_simps) 
  have loop: "series_loop c 0 10 0 \<lparr> real_d = 0, imag_d = 0 \<rparr> \<lparr> real_d = 1, imag_d = 0 \<rparr>
      = Some (\<lparr> real_d = c * c + c, imag_d = 0 \<rparr>, \<lparr> real_d = 2 * c + 1, imag_d = 0 \<rparr>)"
    using c(2) by (rule series_loop_real_axis)
  have "series_approximation c 0 10 = real_of_int SERIES_TERMS + est"
  proof (rule series_approximation_from_loop [OF _ loop, where dzm = d and zm = z])
    show "MIN_SERIES_ITER \<le> 10" by (simp add: MIN_SERIES_ITER_def)
    show "d = sqrt (real_d \<lparr> real_d = 2 * c + 1, imag_d = 0 \<rparr> * real_d \<lparr> real_d = 2 * c + 1, imag_d = 0 \<rparr>
        + imag_d \<lparr> real_d = 2 * c + 1, imag_d = 0 \<rparr> * imag_d \<lparr> real_d = 2 * c + 1, imag_d = 0 \<rparr>)"
      using dgt by (simp add: d_def)
    show "z = sqrt (real_d \<lparr> real_d = c * c + c, imag_d = 0 \<rparr> * real_d \<lparr> real_d = c * c + c, imag_d = 0 \<rparr>
        + imag_d \<lparr> real_d = c * c + c, imag_d = 0 \<rparr> * imag_d \<lparr> real_d = c * c + c, imag_d = 0 \<rparr>)"
      using zpos by (simp add: z_def)
    show "1 / 10 ^ 10 < d"
    proof -
      have "(1::real) / 10 ^ 10 < 1" by simp
      with dgt show ?thesis by linarith
    qed
    show "z \<noteq> 0" using zpos by simp
    show "ln d \<noteq> 0" using lnd by simp
    show "est = ln (ESCAPE_RADIUS / z) / ln d" by (rule est_def)
    show "0 < est" by (rule pos)
    show "est < real_of_int (10 - SERIES_TERMS)" using lt2 by (simp add: SERIES_TERMS_def)
  qed
  with gt lt2 show ?thesis by blast
qed

text \<open>
  Claim C6 says that every accepted estimate is strictly below \<open>max_iter\<close>. The guard of
  \<open>series_approximation\<close> bounds \<open>estimated_escape\<close> and not the returned sum
  \<open>SERIES_TERMS + estimated_escape\<close>. At \<open>cr = 7533416344115857 / 2\<^sup>5\<^sup>4\<close> (the double
  \<open>0x1.ac39a2d22da91p-2\<close>), \<open>ci = 0\<close> and \<open>max_iter = 10\<close> the point is not fast-rejected,
  the estimate is accepted, and the exact value of the sum lies less than \<open>2\<^sup>-\<^sup>5\<^sup>0\<close> below
  \<open>max_iter\<close>. The doubles between 8 and 16 are \<open>2\<^sup>-\<^sup>4\<^sup>9\<close> apart, so the nearest double to
  such a sum is \<open>10.0\<close>: the program, which adds in doubles, returns \<open>max_iter\<close> itself.
\<close>

theorem accepted_estimate_half_ulp_below_max_iter:
  "\<not> quick_mandelbrot_check (7533416344115857 / 2 ^ 54) 0
   \<and> (\<exists>est. series_approximation (7533416344115857 / 2 ^ 54) 0 10 = real_of_int SERIES_TERMS + est
          \<and> 2 - 1 / 2 ^ 50 < est \<and> est < 2)"
proof
  show "\<not> quick_mandelbrot_check (7533416344115857 / 2 ^ 54) 0"
    by (simp add: quick_mandelbrot_check_def Let_def)
  show "\<exists>est. series_approximation (7533416344115857 / 2 ^ 54) 0 10 = real_of_int SERIES_TERMS + est
          \<and> 2 - 1 / 2 ^ 50 < est \<and> est < 2"
    by (rule series_real_axis_estimate) simp_all
qed

subsection \<open>Range of the evaluator\<close>





subsection \<open>The point (2, 2)\<close>

lemma ln_2_le_1: "ln (2::real) \<le> 1"
  using ln_add_one_self_le_self [of "1::real"] by simp

lemma smooth_2_2: "0 < 4 - log 2 (0.5 * ln (10600::real))"
proof -
  have "ln (10600::real) < ln (2 ^ 14)" by (subst ln_less_cancel_iff) simp_all
  also have "\<dots> = 14 * ln 2" using ln_realpow [of "2::real" 14] by simp
  finally have up: "0.5 * ln (10600::real) < 16" using ln_2_le_1 by simp
  have "ln (1::real) < ln 10600" by (subst ln_less_cancel_iff) simp_all
  then have pos: "0 < 0.5 * ln (10600::real)" by simp
  have "log 2 (0.5 * ln (10600::real)) < log 2 (2 ^ 4)"
    using up pos by (subst log_less_cancel_iff) simp_all
  also have "log 2 (2 ^ 4) = (4::real)" using log_pow_cancel [of "2::real" 4] by simp
  finally show ?thesis by simp
qed

text \<open>
  Claim C2, as amended. For the point \<open>(2, 2)\<close> and every \<open>max_iter > 0\<close> the main
  loop stops with \<open>iter = min max_iter 3\<close>: the first iterate whose squared magnitude
  exceeds \<open>BAILOUT_TEST = 256\<close> is the third one, \<open>(-94, 42)\<close>. For \<open>max_iter > 3\<close>
  the evaluator returns \<open>4 - log2 (0.5 * ln 10600)\<close>, independently of \<open>max_iter\<close>; for
  \<open>max_iter \<le> 3\<close> the loop ends without an escape and the evaluator returns
  \<open>max_iter\<close>.
\<close>

theorem point_2_2_escape_iteration:
  assumes "0 < max_iter"
  shows "escape_iter 2 2 max_iter = min max_iter 3
       \<and> fst (calculate_mandelbrot_optimized 2 2 max_iter stats)
           = (if max_iter \<le> 3 then real_of_int max_iter else 4 - log 2 (0.5 * ln 10600))"
proof -
  have q: "\<not> quick_mandelbrot_check 2 2" by (simp add: quick_mandelbrot_check_def Let_def)
  have v: "fst (calculate_mandelbrot_optimized 2 2 max_iter stats) = standard_iteration 2 2 max_iter"
    using q series_2_2 [of max_iter] by (simp add: calculate_mandelbrot_optimized_def)
  consider "max_iter = 1" | "max_iter = 2" | "max_iter = 3" | "3 < max_iter"
    using assms by linarith
  then show ?thesis
  proof cases
    case 1
    have "mandel_loop 2 2 1 0 0 0 = (2, 2, 1)" by (simp add: mandel_loop.simps BAILOUT_TEST_def)
    with 1 v show ?thesis by (simp add: standard_iteration_def escape_iter_def)
  next
    case 2
    have "mandel_loop 2 2 2 0 0 0 = (2, 10, 2)" by (simp add: mandel_loop.simps BAILOUT_TEST_def)
    with 2 v show ?thesis by (simp add: standard_iteration_def escape_iter_def)
  next
    case 3
    have "mandel_loop 2 2 3 0 0 0 = (- 94, 42, 3)" by (simp add: mandel_loop.simps BAILOUT_TEST_def)
    with 3 v show ?thesis by (simp add: standard_iteration_def escape_iter_def)
  next
    case 4
    then have "mandel_loop 2 2 max_iter 0 0 0 = (- 94, 42, 3)"
      by (simp add: mandel_loop.simps BAILOUT_TEST_def)
    with 4 v smooth_2_2 show ?thesis by (simp add: standard_iteration_def escape_iter_def Let_def)
  qed
qed

theorem point_2_2_escape_iteration_witness:
  "(0::int) < 10 \<and> escape_iter 2 2 10 = 3
   \<and> fst (calculate_mandelbrot_optimized 2 2 10 None) = 4 - log 2 (0.5 * ln 10600)"
  using point_2_2_escape_iteration [of 10 None] by simp

text \<open>
  Claim C2 as stated fails: with \<open>max_iter = 10\<close> the main loop does not detect the
  escape of \<open>(2, 2)\<close> at iteration 1.
\<close>

theorem point_2_2_not_at_iteration_1: "escape_iter 2 2 10 \<noteq> 1"
  by (simp add: escape_iter_def mandel_loop.simps BAILOUT_TEST_def)

subsection \<open>Histogram\<close>

lemma int_of_double_lt_iff: "0 < m \<Longrightarrow> int_of_double v < m \<longleftrightarrow> v < real_of_int m"
  unfolding int_of_double_def by (auto; linarith)

lemma sum_list_increment:
  "k < length xs \<Longrightarrow> sum_list (xs[k := xs ! k + 1]) = sum_list xs + (1::int)"
proof (induction xs arbitrary: k)
  case Nil
  then show ?case by simp
next
  case (Cons x xs)
  then show ?case by (cases k) simp_all
qed

lemma count_pixel_props:
  assumes "count_pixel hist v m = Inr h'"
  shows "length (counts h') = length (counts hist)"
    and "total_pixels h' = total_pixels hist + (if int_of_double v < m then 1 else 0)"
    and "sum_list (counts h') = sum_list (counts hist) + (if int_of_double v < m then 1 else 0)"
    and "k < length (counts hist) \<Longrightarrow>
         counts h' ! k = counts hist ! k + (if int_of_double v < m \<and> int_of_double v = int k then 1 else 0)"
  using assms
  by (auto simp add: count_pixel_def Let_def sum_list_increment nth_list_update split: if_splits)

lemma count_pixel_ok:
  assumes "0 \<le> v" and "length (counts hist) = nat m"
  shows "\<exists>h'. count_pixel hist v m = Inr h'"
proof -
  have "0 \<le> int_of_double v" using assms(1) by (simp add: int_of_double_def)
  then show ?thesis using assms(2) by (auto simp add: count_pixel_def Let_def)
qed

lemma histogram_loop_counts:
  "0 \<le> i \<Longrightarrow> histogram_loop data n m i hist = Inr h \<Longrightarrow>
   length (counts h) = length (counts hist)
   \<and> total_pixels h = total_pixels hist
        + int (length (filter (\<lambda>v. int_of_double v < m) (take (nat n - nat i) (drop (nat i) data))))
   \<and> sum_list (counts h) = sum_list (counts hist)
        + int (length (filter (\<lambda>v. int_of_double v < m) (take (nat n - nat i) (drop (nat i) data))))
   \<and> (\<forall>k < length (counts hist). counts h ! k = counts hist ! k
        + int (length (filter (\<lambda>v. int_of_double v < m \<and> int_of_double v = int k)
             (take (nat n - nat i) (drop (nat i) data)))))"
proof (induction data n m i hist rule: histogram_loop.induct)
  case (1 data n m i hist)
  show ?case
  proof (cases "i < n")
    case False
    with "1.prems" have "h = hist" by (simp add: histogram_loop.simps)
    moreover from False "1.prems"(1) have "nat n - nat i = 0" by simp
    ultimately show ?thesis by simp
  next
    case True
    have unf: "histogram_loop data n m i hist =
        (if i < 0 \<or> int (length data) \<le> i then Inl OutOfBounds
         else case count_pixel hist (data ! nat i) m of
                Inl e \<Rightarrow> Inl e
              | Inr hist' \<Rightarrow> histogram_loop data n m (i + 1) hist')"
      using True by (subst histogram_loop.simps) simp
    have inb: "\<not> (i < 0 \<or> int (length data) \<le> i)"
    proof
      assume "i < 0 \<or> int (length data) \<le> i"
      with unf have "histogram_loop data n m i hist = Inl OutOfBounds" by simp
      with "1.prems"(2) show False by simp
    qed
    with unf "1.prems"(2) have "(case count_pixel hist (data ! nat i) m of
                Inl e \<Rightarrow> Inl e
              | Inr hist' \<Rightarrow> histogram_loop data n m (i + 1) hist') = Inr h" by simp
    then obtain h' where
      cp: "count_pixel hist (data ! nat i) m = Inr h'"
      and rest: "histogram_loop data n m (i + 1) h' = Inr h"
      by (cases "count_pixel hist (data ! nat i) m") simp_all
    from inb "1.prems"(1) have lt: "nat i < length data" by linarith
    have dr: "take (nat n - nat i) (drop (nat i) data)
        = data ! nat i # take (nat n - nat (i + 1)) (drop (nat (i + 1)) data)"
    proof -
      have "nat n - nat i = Suc (nat n - nat (i + 1))" using True "1.prems"(1) by linarith
      moreover have "drop (nat i) data = data ! nat i # drop (nat (i + 1)) data"
        using lt "1.prems"(1) by (simp add: Cons_nth_drop_Suc nat_add_distrib)
      ultimately show ?thesis by simp
    qed
    have nonneg: "0 \<le> i + 1" using "1.prems"(1) by simp
    note IH = "1.IH" [OF True inb cp nonneg rest]
    note P = count_pixel_props [OF cp]
    from IH have IH1: "length (counts h) = length (counts h')"
      and IH2: "total_pixels h = total_pixels h'
        + int (length (filter (\<lambda>v. int_of_double v < m)
            (take (nat n - nat (i + 1)) (drop (nat (i + 1)) data))))"
      and IH3: "sum_list (counts h) = sum_list (counts h')
        + int (length (filter (\<lambda>v. int_of_double v < m)
            (take (nat n - nat (i + 1)) (drop (nat (i + 1)) data))))"
      and IH4: "\<And>k. k < length (counts h') \<Longrightarrow> counts h ! k = counts h' ! k
        + int (length (filter (\<lambda>v. int_of_double v < m \<and> int_of_double v = int k)
             (take (nat n - nat (i + 1)) (drop (nat (i + 1)) data))))"
      by simp_all
    have c1: "length (counts h) = length (counts hist)" using IH1 P(1) by simp
    have c2: "total_pixels h = total_pixels hist
        + int (length (filter (\<lambda>v. int_of_double v < m) (take (nat n - nat i) (drop (nat i) data))))"
      unfolding dr using IH2 P(2) by simp
    have c3: "sum_list (counts h) = sum_list (counts hist)
        + int (length (filter (\<lambda>v. int_of_double v < m) (take (nat n - nat i) (drop (nat i) data))))"
      unfolding dr using IH3 P(3) by simp
    have c4: "counts h ! k = counts hist ! k
        + int (length (filter (\<lambda>v. int_of_double v < m \<and> int_of_double v = int k)
             (take (nat n - nat i) (drop (nat i) data))))" if "k < length (counts hist)" for k
      unfolding dr using IH4 [of k] P(4) [OF that] that P(1) by simp
    from c1 c2 c3 c4 show ?thesis by blast
  qed
qed

lemma histogram_loop_ok:
  "0 \<le> i \<Longrightarrow> n \<le> int (length data) \<Longrightarrow> \<forall>v \<in> set data. 0 \<le> v \<Longrightarrow>
   length (counts hist) = nat m \<Longrightarrow> \<exists>h. histogram_loop data n m i hist = Inr h"
proof (induction data n m i hist rule: histogram_loop.induct)
  case (1 data n m i hist)
  show ?case
  proof (cases "i < n")
    case False
    then show ?thesis by (simp add: histogram_loop.simps)
  next
    case True
    with "1.prems"(1,2) have inb: "\<not> (i < 0 \<or> int (length data) \<le> i)" by linarith
    then have "nat i < length data" using "1.prems"(1) by linarith
    with "1.prems"(3) have "0 \<le> data ! nat i" by simp
    from count_pixel_ok [OF this "1.prems"(4)] obtain h' where
      cp: "count_pixel hist (data ! nat i) m = Inr h'" by blast
    have len: "length (counts h') = nat m" using count_pixel_props(1) [OF cp] "1.prems"(4) by simp
    have nonneg: "0 \<le> i + 1" using "1.prems"(1) by simp
    from "1.IH" [OF True inb cp nonneg "1.prems"(2,3) len] obtain h where
      "histogram_loop data n m (i + 1) h' = Inr h" by blast
    then have "histogram_loop data n m i hist = Inr h"
      using True inb cp by (subst histogram_loop.simps) simp
    then show ?thesis by blast
  qed
qed

lemma build_histogram_counts:
  assumes "build_histogram malloc_ok calloc_ok buf w h max_iter = Inr (Some hist)"
    and "w * h = int (length buf)"
  shows "length (counts hist) = nat max_iter"
    and "total_pixels hist = int (length (filter (\<lambda>v. int_of_double v < max_iter) buf))"
    and "sum_list (counts hist) = total_pixels hist"
    and "k < nat max_iter \<Longrightarrow> counts hist ! k
          = int (length (filter (\<lambda>v. int_of_double v < max_iter \<and> int_of_double v = int k) buf))"
proof -
  let ?h0 = "\<lparr> counts = replicate (nat max_iter) 0, total_pixels = 0, max_count = 0 \<rparr>"
  from assms(1) have loop: "histogram_loop buf (w * h) max_iter 0 ?h0 = Inr hist"
    by (simp add: build_histogram_def split: if_splits sum.splits)
  have tk: "take (nat (w * h) - nat 0) (drop (nat 0) buf) = buf" using assms(2) by simp
  note L = histogram_loop_counts [OF _ loop, unfolded tk]
  show "length (counts hist) = nat max_iter" using L by simp
  show "total_pixels hist = int (length (filter (\<lambda>v. int_of_double v < max_iter) buf))"
    using L by simp
  show "sum_list (counts hist) = total_pixels hist" using L by (simp add: sum_list_replicate)
  show "counts hist ! k
          = int (length (filter (\<lambda>v. int_of_double v < max_iter \<and> int_of_double v = int k) buf))"
    if "k < nat max_iter"
    using L that by simp
qed

lemma build_histogram_example:
  "build_histogram True True [1/2, 3, 9/4, 3] 2 2 3
    = Inr (Some \<lparr> counts = [1, 0, 1], total_pixels = 2, max_count = 1 \<rparr>)"
  by (simp add: build_histogram_def histogram_loop.simps count_pixel_def int_of_double_def Let_def
      eval_nat_numeral)

text \<open>
  Claim C4. For every iteration buffer of \<open>width * height\<close> results, each between 0 and
  \<open>max_iter\<close> as iteration results are, with \<open>width * height\<close> and \<open>max_iter\<close> in the range
  of a C int, and every \<open>max_iter > 0\<close>, \<open>build_histogram\<close> (its allocations succeeding) returns a
  histogram in which the sum of all bucket counts equals \<open>total_pixels\<close>, and
  \<open>total_pixels\<close> is the number of pixels whose result is below \<open>max_iter\<close>. Bucket \<open>k\<close>
  counts exactly the pixels below \<open>max_iter\<close> whose result truncates to \<open>k\<close>, so a pixel
  whose result equals \<open>max_iter\<close> is counted in no bucket and not in \<open>total_pixels\<close>.
\<close>

theorem histogram_totals:
  assumes "0 < max_iter" and "w * h = int (length buf)"
    and "\<forall>v \<in> set buf. 0 \<le> v \<and> v \<le> real_of_int max_iter"
    and "w * h \<le> INT_MAX" and "max_iter \<le> INT_MAX"
  shows "\<exists>hist. build_histogram True True buf w h max_iter = Inr (Some hist)
     \<and> sum_list (counts hist) = total_pixels hist
     \<and> total_pixels hist = int (length (filter (\<lambda>v. v < real_of_int max_iter) buf))
     \<and> length (counts hist) = nat max_iter
     \<and> (\<forall>k < nat max_iter. counts hist ! k
          = int (length (filter (\<lambda>v. v < real_of_int max_iter \<and> int_of_double v = int k) buf)))"
proof -
  let ?h0 = "\<lparr> counts = replicate (nat max_iter) 0, total_pixels = 0, max_count = 0 \<rparr>"
  have "\<exists>hist. histogram_loop buf (w * h) max_iter 0 ?h0 = Inr hist"
    using assms(2,3) by (intro histogram_loop_ok) simp_all
  then obtain hist where "histogram_loop buf (w * h) max_iter 0 ?h0 = Inr hist" by blast
  then have b: "build_histogram True True buf w h max_iter = Inr (Some hist)"
    by (simp add: build_histogram_def)
  note B = build_histogram_counts [OF b assms(2)]
  have eq: "(\<lambda>v. int_of_double v < max_iter) = (\<lambda>v. v < real_of_int max_iter)"
    using int_of_double_lt_iff [OF assms(1)] by auto
  have eq2: "(\<lambda>v. int_of_double v < max_iter \<and> int_of_double v = int k)
       = (\<lambda>v. v < real_of_int max_iter \<and> int_of_double v = int k)" for k
    using int_of_double_lt_iff [OF assms(1)] by auto
  show ?thesis
  proof (intro exI conjI allI impI)
    show "build_histogram True True buf w h max_iter = Inr (Some hist)" by (rule b)
    show "sum_list (counts hist) = total_pixels hist" by (rule B(3))
    show "total_pixels hist = int (length (filter (\<lambda>v. v < real_of_int max_iter) buf))"
      using B(2) unfolding eq .
    show "length (counts hist) = nat max_iter" by (rule B(1))
    show "counts hist ! k
          = int (length (filter (\<lambda>v. v < real_of_int max_iter \<and> int_of_double v = int k) buf))"
      if "k < nat max_iter" for k
      using B(4) [OF that] unfolding eq2 .
  qed
qed

theorem histogram_totals_witness:
  "(0::int) < 3 \<and> (2::int) * 2 = int (length [1/2, 3, 9/4, 3::real])
   \<and> list_all (\<lambda>v. 0 \<le> v \<and> v \<le> real_of_int 3) [1/2, 3, 9/4, 3::real]
   \<and> (2::int) * 2 \<le> INT_MAX \<and> (3::int) \<le> INT_MAX
   \<and> (\<exists>hist. build_histogram True True [1/2, 3, 9/4, 3] 2 2 3 = Inr (Some hist)
     \<and> sum_list (counts hist) = total_pixels hist
     \<and> total_pixels hist = int (length (filter (\<lambda>v. v < real_of_int 3) [1/2, 3, 9/4, 3::real]))
     \<and> length (counts hist) = nat 3
     \<and> (\<forall>k < nat 3. counts hist ! k
          = int (length (filter (\<lambda>v. v < real_of_int 3 \<and> int_of_double v = int k) [1/2, 3, 9/4, 3::real]))))"
  using histogram_totals [of 3 2 2 "[1/2, 3, 9/4, 3]"] by (simp add: INT_MAX_def)

lemma accumulate_counts_ok:
  "0 \<le> i \<Longrightarrow> length cs = nat m \<Longrightarrow> \<exists>a. accumulate_counts cs bucket m i acc = Inr a"
proof (induction cs bucket m i acc rule: accumulate_counts.induct)
  case (1 cs bucket m i acc)
  show ?case
  proof (cases "i \<le> bucket \<and> i < m")
    case False
    then show ?thesis by (subst accumulate_counts.simps) auto
  next
    case True
    with "1.prems" have inb: "\<not> (i < 0 \<or> int (length cs) \<le> i)" by linarith
    have nonneg: "0 \<le> i + 1" using "1.prems"(1) by simp
    from "1.IH" [OF True inb nonneg "1.prems"(2)] obtain a where
      "accumulate_counts cs bucket m (i + 1) (acc + cs ! nat i) = Inr a" by blast
    then have "accumulate_counts cs bucket m i acc = Inr a"
      using True inb by (subst accumulate_counts.simps) simp
    then show ?thesis by blast
  qed
qed

text \<open>
  Claim C9. When the histogram mapper is called on a pixel of the buffer from which the
  histogram was built, the division by \<open>total_pixels\<close> is not a division by zero: a
  call that reaches the division has \<open>smooth_iter < max_iter\<close>, that pixel was counted by
  \<open>build_histogram\<close>, so \<open>total_pixels \<ge> 1\<close>, and the mapper returns a colour.
\<close>

theorem histogram_division_nonzero:
  assumes "0 < max_iter"
    and "build_histogram malloc_ok calloc_ok buf w h max_iter = Inr (Some hist)"
    and "w * h = int (length buf)"
    and "i < length buf"
  shows "(buf ! i < real_of_int max_iter \<longrightarrow> 1 \<le> total_pixels hist)
       \<and> (\<exists>c. map_iteration_to_color_histogram (buf ! i) max_iter (Some hist) = Inr c)"
proof -
  have tp: "1 \<le> total_pixels hist" if lt: "buf ! i < real_of_int max_iter"
  proof -
    from lt have "int_of_double (buf ! i) < max_iter"
      using int_of_double_lt_iff [OF assms(1)] by simp
    with assms(4) have "filter (\<lambda>v. int_of_double v < max_iter) buf \<noteq> []"
      by (auto simp add: filter_empty_conv)
    then have "1 \<le> int (length (filter (\<lambda>v. int_of_double v < max_iter) buf))"
      by (cases "filter (\<lambda>v. int_of_double v < max_iter) buf") simp_all
    then show ?thesis unfolding build_histogram_counts(2) [OF assms(2,3)] .
  qed
  have "\<exists>c. map_iteration_to_color_histogram (buf ! i) max_iter (Some hist) = Inr c"
  proof (cases "buf ! i < real_of_int max_iter")
    case False
    then show ?thesis by (simp add: map_iteration_to_color_histogram_def)
  next
    case True
    let ?bucket = "if max_iter \<le> int_of_double (buf ! i) then max_iter - 1
                   else int_of_double (buf ! i)"
    from tp [OF True] have nz: "total_pixels hist \<noteq> 0" by simp
    have "length (counts hist) = nat max_iter" by (rule build_histogram_counts(1) [OF assms(2,3)])
    from accumulate_counts_ok [OF _ this, of 0 ?bucket 0] obtain a where
      "accumulate_counts (counts hist) ?bucket max_iter 0 0 = Inr a" by auto
    with nz True show ?thesis
      by (simp add: map_iteration_to_color_histogram_def Let_def)
  qed
  with tp show ?thesis by blast
qed

theorem histogram_division_nonzero_witness:
  "(0::int) < 3
   \<and> build_histogram True True [1/2, 3, 9/4, 3] 2 2 3
       = Inr (Some \<lparr> counts = [1, 0, 1], total_pixels = 2, max_count = 1 \<rparr>)
   \<and> (2::int) * 2 = int (length [1/2, 3, 9/4, 3::real])
   \<and> 0 < length [1/2, 3, 9/4, 3::real]
   \<and> [1/2, 3, 9/4, 3::real] ! 0 < real_of_int 3
   \<and> 1 \<le> total_pixels \<lparr> counts = [1, 0, 1], total_pixels = 2, max_count = 1 \<rparr>
   \<and> (\<exists>c. map_iteration_to_color_histogram ([1/2, 3, 9/4, 3] ! 0) 3
             (Some \<lparr> counts = [1, 0, 1], total_pixels = 2, max_count = 1 \<rparr>) = Inr c)"
  using histogram_division_nonzero [OF _ build_histogram_example, of 0] build_histogram_example
  by simp

subsection \<open>Computation phase: sequential and parallel runs\<close>

lemma evaluate_pixel_stats:
  "fst (evaluate_pixel cr ci m stats) = fst (evaluate_pixel cr ci m None)"
  by (simp add: evaluate_pixel_def calculate_mandelbrot_optimized_def split: option.splits)

lemma store_ok: "0 \<le> i \<Longrightarrow> i < int (length xs) \<Longrightarrow> store xs i v = Inr (xs[nat i := v])"
  by (simp add: store_def)

lemma row_index_bounds:
  assumes "0 \<le> py" "py < h" "0 \<le> px" "px < w"
  shows "0 \<le> py * w + (px::int)" and "py * w + px < w * h"
proof -
  show "0 \<le> py * w + px" using assms by simp
  have "(py + 1) * w \<le> h * w" using assms by (intro mult_right_mono) simp_all
  then show "py * w + px < w * h" using assms by (simp add: algebra_simps)
qed

lemma row_index_div_mod:
  assumes "0 \<le> px" "px < w"
  shows "(py * w + px) div w = py" and "(py * w + px) mod w = (px::int)"
  using assms by simp_all

lemma compute_row_result:
  assumes "0 \<le> py" "py < height params" "0 \<le> px" "length d = nat (width params * height params)"
  shows "\<exists>d' s'. compute_row params
            (pixel_scale (x_min params) (x_max params) (width params))
            (pixel_coordinate (y_min params) py
               (pixel_scale (y_min params) (y_max params) (height params)))
            py px d stats = Inr (d', s')
          \<and> length d' = length d
          \<and> (\<forall>j < length d. d' ! j =
                (if py * width params + px \<le> int j \<and> int j < (py + 1) * width params
                 then pixel_value params py (int j - py * width params) else d ! j))"
  using assms
proof (induction params "pixel_scale (x_min params) (x_max params) (width params)"
    "pixel_coordinate (y_min params) py (pixel_scale (y_min params) (y_max params) (height params))"
    py px d stats rule: compute_row.induct)
  case (1 params py px d stats)
  let ?w = "width params"
  let ?xs = "pixel_scale (x_min params) (x_max params) ?w"
  let ?ci = "pixel_coordinate (y_min params) py (pixel_scale (y_min params) (y_max params) (height params))"
  show ?case
  proof (cases "px < ?w")
    case False
    have "compute_row params ?xs ?ci py px d stats = Inr (d, stats)"
      using False by (subst compute_row.simps) simp
    moreover have "\<not> (py * ?w + px \<le> int j \<and> int j < (py + 1) * ?w)" for j
      using False by (simp add: algebra_simps)
    ultimately show ?thesis by auto
  next
    case True
    let ?v = "fst (evaluate_pixel (pixel_coordinate (x_min params) px ?xs) ?ci (max_iterations params) stats)"
    let ?s = "snd (evaluate_pixel (pixel_coordinate (x_min params) px ?xs) ?ci (max_iterations params) stats)"
    let ?d1 = "d[nat (py * ?w + px) := ?v]"
    have v: "?v = pixel_value params py px"
      by (subst evaluate_pixel_stats) (simp add: pixel_value_def)
    note b = row_index_bounds [OF "1.prems"(1,2,3) True]
    have idx: "nat (py * ?w + px) < length d" using b "1.prems"(4) by simp
    have st: "store d (py * ?w + px) ?v = Inr ?d1"
      using b "1.prems"(4) by (intro store_ok) simp_all
    have len1: "length ?d1 = nat (?w * height params)" using "1.prems"(4) by simp
    have nonneg: "0 \<le> px + 1" using "1.prems"(3) by simp
    from "1.hyps" [OF True st "1.prems"(1,2) nonneg len1]
    obtain d' s' where
      r: "compute_row params ?xs ?ci py (px + 1) ?d1 ?s = Inr (d', s')"
      and l: "length d' = length ?d1"
      and n: "\<And>j. j < length ?d1 \<Longrightarrow> d' ! j =
                (if py * ?w + (px + 1) \<le> int j \<and> int j < (py + 1) * ?w
                 then pixel_value params py (int j - py * ?w) else ?d1 ! j)"
      by blast
    have unf: "compute_row params ?xs ?ci py px d stats = Inr (d', s')"
      using True st r by (subst compute_row.simps) simp
    have "d' ! j = (if py * ?w + px \<le> int j \<and> int j < (py + 1) * ?w
                 then pixel_value params py (int j - py * ?w) else d ! j)"
      if j: "j < length d" for j
    proof (cases "int j = py * ?w + px")
      case eq: True
      then have "j = nat (py * ?w + px)" by simp
      then have "d' ! j = ?v" using n [of j] j eq by simp
      with eq v True show ?thesis by (simp add: algebra_simps)
    next
      case neq: False
      then have "j \<noteq> nat (py * ?w + px)" using b(1) by linarith
      then have "?d1 ! j = d ! j" by simp
      with n [of j] j neq show ?thesis by auto
    qed
    with unf l show ?thesis by simp
  qed
qed

lemma row_of_index:
  assumes "py * w \<le> j" "j < (py + 1) * w"
  shows "j div w = py" and "j mod w = j - py * (w::int)"
proof -
  have r: "0 \<le> j - py * w" "j - py * w < w" using assms by (simp_all add: algebra_simps)
  have e: "py * w + (j - py * w) = j" by simp
  from row_index_div_mod [OF r, of py]
  show "j div w = py" "j mod w = j - py * w" unfolding e by simp_all
qed

lemma compute_rows_result:
  assumes "0 \<le> py" "py \<le> height params" "length d = nat (width params * height params)"
  shows "\<exists>d' s'. compute_rows params
            (pixel_scale (x_min params) (x_max params) (width params))
            (pixel_scale (y_min params) (y_max params) (height params))
            py d stats = Inr (d', s')
          \<and> length d' = length d
          \<and> (\<forall>j < length d. d' ! j =
                (if py * width params \<le> int j
                 then pixel_value params (int j div width params) (int j mod width params)
                 else d ! j))"
  using assms
proof (induction params "pixel_scale (x_min params) (x_max params) (width params)"
    "pixel_scale (y_min params) (y_max params) (height params)"
    py d stats rule: compute_rows.induct)
  case (1 params py d stats)
  let ?w = "width params"
  let ?h = "height params"
  let ?xs = "pixel_scale (x_min params) (x_max params) ?w"
  let ?ys = "pixel_scale (y_min params) (y_max params) ?h"
  show ?case
  proof (cases "py < ?h")
    case False
    with "1.prems"(2) have py: "py = ?h" by simp
    have "compute_rows params ?xs ?ys py d stats = Inr (d, stats)"
      using False by (subst compute_rows.simps) simp
    moreover have "\<not> py * ?w \<le> int j" if "j < length d" for j
      using that "1.prems"(3) py by (simp add: mult.commute)
    ultimately show ?thesis by auto
  next
    case True
    have "(0::int) \<le> 0" by simp
    from compute_row_result [OF "1.prems"(1) True this "1.prems"(3), where stats = stats]
    obtain d1 s1 where row:
      "compute_row params ?xs (pixel_coordinate (y_min params) py ?ys) py 0 d stats = Inr (d1, s1)
       \<and> length d1 = length d
       \<and> (\<forall>j < length d. d1 ! j =
                (if py * ?w + 0 \<le> int j \<and> int j < (py + 1) * ?w
                 then pixel_value params py (int j - py * ?w) else d ! j))"
      by (elim exE) (erule that)
    note r1 = row [THEN conjunct1]
    note l1 = row [THEN conjunct2, THEN conjunct1]
    note n1 = row [THEN conjunct2, THEN conjunct2, rule_format]
    have nonneg: "0 \<le> py + 1" using "1.prems"(1) by simp
    have le: "py + 1 \<le> ?h" using True by simp
    have len1: "length d1 = nat (?w * ?h)" using l1 "1.prems"(3) by simp
    from "1.hyps" [OF True r1 refl nonneg le len1]
    obtain d' s' where rows:
      "compute_rows params ?xs ?ys (py + 1) d1 s1 = Inr (d', s')
       \<and> length d' = length d1
       \<and> (\<forall>j < length d1. d' ! j =
                (if (py + 1) * ?w \<le> int j
                 then pixel_value params (int j div ?w) (int j mod ?w) else d1 ! j))"
      by (elim exE) (erule that)
    note r = rows [THEN conjunct1]
    note l = rows [THEN conjunct2, THEN conjunct1]
    note n = rows [THEN conjunct2, THEN conjunct2, rule_format]
    have unf: "compute_rows params ?xs ?ys py d stats = Inr (d', s')"
      using True r1 r by (subst compute_rows.simps) simp
    have "d' ! j = (if py * ?w \<le> int j
                 then pixel_value params (int j div ?w) (int j mod ?w) else d ! j)"
      if j: "j < length d" for j
    proof (cases "(py + 1) * ?w \<le> int j")
      case above: True
      then have "py * ?w \<le> int j"
      proof -
        have "py * ?w \<le> (py + 1) * ?w"
        proof (cases "0 \<le> ?w")
          case True
          then show ?thesis by (simp add: algebra_simps)
        next
          case False
          with j "1.prems"(3) have "length d = 0"
            using \<open>py < ?h\<close> "1.prems"(1) by (simp add: mult_nonpos_nonneg)
          with j show ?thesis by simp
        qed
        with above show ?thesis by linarith
      qed
      with above n [of j] j l1 show ?thesis by simp
    next
      case below: False
      show ?thesis
      proof (cases "py * ?w \<le> int j")
        case True
        from row_of_index [OF True] below
        have "int j div ?w = py" "int j mod ?w = int j - py * ?w" by simp_all
        with True below n [of j] n1 [of j] j l1 show ?thesis by simp
      next
        case False
        with below n [of j] n1 [of j] j l1 show ?thesis by simp
      qed
    qed
    with unf l l1 show ?thesis by simp
  qed
qed

lemma compute_rows_evaluated_buffer:
  assumes "length d = nat (width params * height params)" and "0 \<le> height params"
  shows "\<exists>s'. compute_rows params
            (pixel_scale (x_min params) (x_max params) (width params))
            (pixel_scale (y_min params) (y_max params) (height params))
            0 d stats = Inr (evaluated_buffer params, s')"
proof -
  have "(0::int) \<le> 0" by simp
  from compute_rows_result [OF this assms(2,1), where stats = stats]
  obtain d' s' where rows:
    "compute_rows params
            (pixel_scale (x_min params) (x_max params) (width params))
            (pixel_scale (y_min params) (y_max params) (height params))
            0 d stats = Inr (d', s')
     \<and> length d' = length d
     \<and> (\<forall>j < length d. d' ! j =
                (if 0 * width params \<le> int j
                 then pixel_value params (int j div width params) (int j mod width params)
                 else d ! j))"
    by (elim exE) (erule that)
  note r = rows [THEN conjunct1]
  note l = rows [THEN conjunct2, THEN conjunct1]
  have n: "d' ! j = pixel_value params (int j div width params) (int j mod width params)"
    if "j < length d" for j
    using rows [THEN conjunct2, THEN conjunct2, rule_format, OF that] by simp
  have "d' = evaluated_buffer params"
    using l n assms(1) by (intro nth_equalityI) (simp_all add: evaluated_buffer_def)
  with r show ?thesis by blast
qed

lemma apply_writes_result:
  assumes "\<forall>(i, v) \<in> set tr. 0 \<le> i \<and> i < int (length buf) \<and> v = f (nat i)"
  shows "\<exists>buf'. apply_writes tr buf = Inr buf' \<and> length buf' = length buf
           \<and> (\<forall>j < length buf. buf' ! j = (if int j \<in> fst ` set tr then f j else buf ! j))"
  using assms
proof (induction tr arbitrary: buf)
  case Nil
  then show ?case by simp
next
  case (Cons a tr)
  obtain i v where a: "a = (i, v)" by (cases a)
  from Cons.prems a have i: "0 \<le> i" "i < int (length buf)" and v: "v = f (nat i)" by auto
  let ?b1 = "buf[nat i := v]"
  have st: "store buf i v = Inr ?b1" using i by (rule store_ok)
  have "\<forall>(i, v) \<in> set tr. 0 \<le> i \<and> i < int (length ?b1) \<and> v = f (nat i)"
    using Cons.prems by auto
  from Cons.IH [OF this] obtain buf' where rec:
    "apply_writes tr ?b1 = Inr buf' \<and> length buf' = length ?b1
     \<and> (\<forall>j < length ?b1. buf' ! j = (if int j \<in> fst ` set tr then f j else ?b1 ! j))"
    by (elim exE) (erule that)
  note r = rec [THEN conjunct1]
  note l = rec [THEN conjunct2, THEN conjunct1]
  note n = rec [THEN conjunct2, THEN conjunct2, rule_format]
  have run: "apply_writes (a # tr) buf = Inr buf'" using a st r by simp
  have "buf' ! j = (if int j \<in> fst ` set (a # tr) then f j else buf ! j)"
    if j: "j < length buf" for j
  proof (cases "int j \<in> fst ` set tr")
    case True
    with n [of j] j show ?thesis by simp
  next
    case False
    show ?thesis
    proof (cases "int j = i")
      case True
      then have "j = nat i" by simp
      with n [of j] j False v a i(1) show ?thesis by simp
    next
      case ne: False
      then have "j \<noteq> nat i" using i(1) by linarith
      with n [of j] j False ne a show ?thesis by simp
    qed
  qed
  with run l show ?case by simp
qed

lemma interleaving_set:
  "interleaving ws tr \<Longrightarrow> set tr = (\<Union>w \<in> set ws. set w)"
proof (induction rule: interleaving.induct)
  case (finished ws)
  then show ?case by simp
next
  case (step t ws x rest tr)
  have "(\<Union>w \<in> set ws. set w) = insert x (\<Union>w \<in> set (ws[t := rest]). set w)"
  proof (intro set_eqI iffI)
    fix y assume "y \<in> (\<Union>w \<in> set ws. set w)"
    then obtain w where w: "w \<in> set ws" "y \<in> set w" by auto
    from w(1) obtain u where "u < length ws" "ws ! u = w" by (auto simp add: in_set_conv_nth)
    with w(2) have u: "u < length ws" "y \<in> set (ws ! u)" by simp_all
    show "y \<in> insert x (\<Union>w \<in> set (ws[t := rest]). set w)"
    proof (cases "u = t")
      case True
      with u step.hyps(2) have "y = x \<or> y \<in> set rest" by simp
      moreover have "rest \<in> set (ws[t := rest])" using step.hyps(1) by (simp add: set_update_memI)
      ultimately show ?thesis by auto
    next
      case False
      with u have "ws ! u \<in> set (ws[t := rest])"
        by (metis length_list_update nth_list_update_neq nth_mem)
      with u(2) show ?thesis by auto
    qed
  next
    fix y assume "y \<in> insert x (\<Union>w \<in> set (ws[t := rest]). set w)"
    then consider "y = x" | w where "w \<in> set (ws[t := rest])" "y \<in> set w" by auto
    then show "y \<in> (\<Union>w \<in> set ws. set w)"
    proof cases
      case 1
      have mem: "ws ! t \<in> set ws" using step.hyps(1) by simp
      have "y \<in> set (ws ! t)" using 1 step.hyps(2) by simp
      with mem show ?thesis by blast
    next
      case 2
      from 2(1) have "w = rest \<or> w \<in> set ws" using set_update_subset_insert [of ws t rest] by auto
      then show ?thesis
      proof
        assume "w = rest"
        have mem: "ws ! t \<in> set ws" using step.hyps(1) by simp
        have "y \<in> set (ws ! t)" using 2(2) \<open>w = rest\<close> step.hyps(2) by simp
        with mem show ?thesis by blast
      next
        assume "w \<in> set ws"
        with 2(2) show ?thesis by auto
      qed
    qed
  qed
  with step.IH show ?case by simp
qed

lemma interleaving_skip_empty:
  "interleaving ws tr \<Longrightarrow> interleaving ([] # ws) tr"
proof (induction rule: interleaving.induct)
  case (finished ws)
  then show ?case by (intro interleaving.finished) simp
next
  case (step t ws x rest tr)
  have "interleaving (([] # ws)[Suc t := rest]) tr" using step.IH by simp
  moreover have "Suc t < length ([] # ws)" using step.hyps(1) by simp
  moreover have "([] # ws) ! Suc t = x # rest" using step.hyps(2) by simp
  ultimately show ?case by (rule interleaving.step [rotated 2])
qed

lemma interleaving_concat: "interleaving ws (concat ws)"
proof (induction ws)
  case Nil
  show ?case by (simp add: interleaving.finished)
next
  case (Cons w ws)
  show ?case
  proof (induction w)
    case Nil
    from interleaving_skip_empty [OF Cons.IH] show ?case by simp
  next
    case (Cons x w)
    have "interleaving (((x # w) # ws)[0 := w]) (concat (w # ws))" using Cons by simp
    then have "interleaving ((x # w) # ws) (x # concat (w # ws))"
      by (intro interleaving.step [where t = 0 and rest = w]) simp_all
    then show ?case by simp
  qed
qed

lemma omp_chunks_cover:
  "(\<Union>k \<in> {0 ..< omp_num_chunks h}. set (omp_chunk h k)) = {0 .. h - 1}"
proof (intro set_eqI iffI)
  fix y assume "y \<in> (\<Union>k \<in> {0 ..< omp_num_chunks h}. set (omp_chunk h k))"
  then show "y \<in> {0 .. h - 1}" by (auto simp add: omp_chunk_def)
next
  fix y assume y: "y \<in> {0 .. h - 1}"
  let ?k = "nat (y div 16)"
  from y have y0: "0 \<le> y" and yh: "y < h" by simp_all
  have d0: "0 \<le> y div 16" using y0 by (simp add: pos_imp_zdiv_nonneg_iff)
  then have k: "int ?k = y div 16" by simp
  have "(y + 16) div 16 \<le> (h + 15) div 16" using yh by (intro zdiv_mono1) simp_all
  then have "y div 16 < (h + 15) div 16" by simp
  with d0 have "?k < omp_num_chunks h" unfolding omp_num_chunks_def by linarith
  moreover have "y \<in> set (omp_chunk h ?k)"
  proof -
    have "y = 16 * (y div 16) + y mod 16" by simp
    moreover have "0 \<le> y mod 16" "y mod 16 < 16" by simp_all
    ultimately have "16 * (y div 16) \<le> y \<and> y \<le> 16 * (y div 16) + 15" by linarith
    with yh d0 show ?thesis by (simp add: omp_chunk_def k)
  qed
  ultimately show "y \<in> (\<Union>k \<in> {0 ..< omp_num_chunks h}. set (omp_chunk h k))" by auto
qed

lemma row_writes_set:
  "set (row_writes params py)
     = (\<lambda>px. (py * width params + px, pixel_value params py px)) ` {0 .. width params - 1}"
  by (simp add: row_writes_def)

lemma thread_writes_set:
  "set (thread_writes params owner t)
     = (\<Union>k \<in> {k. k < omp_num_chunks (height params) \<and> owner k = t}.
          \<Union>py \<in> set (omp_chunk (height params) k). set (row_writes params py))"
  by (auto simp add: thread_writes_def)

lemma schedule_writes:
  assumes "parallel_schedule params n owner tr"
  shows "set tr = (\<Union>py \<in> {0 .. height params - 1}. set (row_writes params py))"
proof -
  from assms have own: "\<And>k. k < omp_num_chunks (height params) \<Longrightarrow> owner k < n"
    and il: "interleaving (map (thread_writes params owner) [0 ..< n]) tr"
    by (simp_all add: parallel_schedule_def)
  have "set tr = (\<Union>t \<in> {0 ..< n}. set (thread_writes params owner t))"
    using interleaving_set [OF il] by simp
  also have "\<dots> = (\<Union>k \<in> {0 ..< omp_num_chunks (height params)}.
          \<Union>py \<in> set (omp_chunk (height params) k). set (row_writes params py))"
    unfolding thread_writes_set using own by fastforce
  also have "\<dots> = (\<Union>py \<in> (\<Union>k \<in> {0 ..< omp_num_chunks (height params)}.
          set (omp_chunk (height params) k)). set (row_writes params py))"
    by blast
  finally show ?thesis unfolding omp_chunks_cover .
qed

lemma schedule_writes_sound:
  assumes "parallel_schedule params n owner tr" and "(i, v) \<in> set tr"
  shows "0 \<le> i \<and> i < width params * height params
       \<and> v = pixel_value params (int (nat i) div width params) (int (nat i) mod width params)"
proof -
  from assms obtain py px where py: "0 \<le> py" "py < height params"
    and px: "0 \<le> px" "px < width params"
    and i: "i = py * width params + px" and v: "v = pixel_value params py px"
    unfolding schedule_writes [OF assms(1)] row_writes_set by auto
  note b = row_index_bounds [OF py px]
  note dm = row_index_div_mod [OF px, of py]
  have i0: "0 \<le> i" using b(1) i by simp
  have ilt: "i < width params * height params" using b(2) i by simp
  have "int (nat i) = i" using i0 by simp
  then have "v = pixel_value params (int (nat i) div width params) (int (nat i) mod width params)"
    unfolding i using dm v by simp
  with i0 ilt show ?thesis by simp
qed

lemma schedule_writes_complete:
  assumes "parallel_schedule params n owner tr" and "0 < width params"
    and "j < nat (width params * height params)"
  shows "int j \<in> fst ` set tr"
proof -
  let ?w = "width params"
  let ?py = "int j div ?w"
  let ?px = "int j mod ?w"
  have px: "0 \<le> ?px" "?px < ?w" using assms(2) by simp_all
  have py0: "0 \<le> ?py" using assms(2) by (simp add: pos_imp_zdiv_nonneg_iff)
  have "?py < height params"
  proof (rule ccontr)
    assume "\<not> ?py < height params"
    then have "height params * ?w \<le> ?py * ?w" using assms(2) by (intro mult_right_mono) simp_all
    also have "\<dots> \<le> int j" using px(1) minus_mod_eq_div_mult [of "int j" ?w] by linarith
    finally show False using assms(3) by (simp add: mult.commute)
  qed
  then have "?py \<in> {0 .. height params - 1}" using py0 by simp
  moreover have "(?py * ?w + ?px, pixel_value params ?py ?px) \<in> set (row_writes params ?py)"
    unfolding row_writes_set using px by (intro imageI) simp
  ultimately have "(?py * ?w + ?px, pixel_value params ?py ?px) \<in> set tr"
    unfolding schedule_writes [OF assms(1)] by blast
  then have "fst (?py * ?w + ?px, pixel_value params ?py ?px) \<in> fst ` set tr" by (rule imageI)
  then show ?thesis by simp
qed

lemma parallel_run_evaluated_buffer:
  assumes "parallel_schedule params n owner tr" and "0 < width params"
    and "length buf = nat (width params * height params)"
  shows "apply_writes tr buf = Inr (evaluated_buffer params)"
proof -
  let ?f = "\<lambda>j. pixel_value params (int j div width params) (int j mod width params)"
  have "\<forall>(i, v) \<in> set tr. 0 \<le> i \<and> i < int (length buf) \<and> v = ?f (nat i)"
  proof (intro ballI, clarify)
    fix i v assume "(i, v) \<in> set tr"
    from schedule_writes_sound [OF assms(1) this] assms(3)
    show "0 \<le> i \<and> i < int (length buf) \<and> v = ?f (nat i)" by simp
  qed
  from apply_writes_result [OF this] obtain buf' where res:
    "apply_writes tr buf = Inr buf' \<and> length buf' = length buf
           \<and> (\<forall>j < length buf. buf' ! j = (if int j \<in> fst ` set tr then ?f j else buf ! j))"
    by (elim exE) (erule that)
  note r = res [THEN conjunct1]
  note l = res [THEN conjunct2, THEN conjunct1]
  note nn = res [THEN conjunct2, THEN conjunct2, rule_format]
  have "buf' ! j = ?f j" if "j < length buf" for j
    using nn [OF that] schedule_writes_complete [OF assms(1,2), of j] that assms(3) by simp
  then have "buf' = evaluated_buffer params"
    using l assms(3) by (intro nth_equalityI) (simp_all add: evaluated_buffer_def)
  with r show ?thesis by simp
qed

lemma evaluated_buffer_nth:
  assumes "0 \<le> py" "py < height params" "0 \<le> px" "px < width params"
  shows "evaluated_buffer params ! nat (py * width params + px) = pixel_value params py px"
proof -
  note b = row_index_bounds [OF assms]
  note dm = row_index_div_mod [OF assms(3,4), of py]
  have "nat (py * width params + px) < nat (width params * height params)" using b by simp
  then have "evaluated_buffer params ! nat (py * width params + px)
      = pixel_value params (int (nat (py * width params + px)) div width params)
          (int (nat (py * width params + px)) mod width params)"
    by (simp add: evaluated_buffer_def)
  also have "int (nat (py * width params + px)) = py * width params + px" using b(1) by simp
  finally show ?thesis using dm by simp
qed

lemma one_thread_after_the_other:
  assumes "\<forall>k < omp_num_chunks (height params). owner k < n"
  shows "parallel_schedule params n owner (concat (map (thread_writes params owner) [0 ..< n]))"
  using assms interleaving_concat by (simp add: parallel_schedule_def)

text \<open>
  In the frame \<open>demo_params\<close> with 8 threads, where thread 1 takes the first chunk and
  thread 0 the second, the work of thread 0 is the last row: a run in which thread 0
  goes first writes the buffer in another order than the sequential loop.
\<close>

lemma demo_thread_0:
  "thread_writes demo_params (\<lambda>k. if k = 0 then 1 else 0) 0
     = [(32, pixel_value demo_params 16 0), (33, pixel_value demo_params 16 1)]"
proof -
  have "omp_num_chunks (height demo_params) = 2"
    by (simp add: omp_num_chunks_def demo_params_def)
  moreover have "[0 ..< (2::nat)] = [0, 1]" by (simp add: upt_rec)
  moreover have "omp_chunk (height demo_params) 1 = [16]"
    by (simp add: omp_chunk_def demo_params_def)
  moreover have "row_writes demo_params 16
     = [(32, pixel_value demo_params 16 0), (33, pixel_value demo_params 16 1)]"
    by (simp add: row_writes_def demo_params_def upto_rec1)
  ultimately show ?thesis by (simp add: thread_writes_def)
qed

text \<open>
  Claim C5. For identical parameters the iteration buffer of the computation phase does
  not depend on the thread count: every parallel run (any number of threads, any
  assignment of the chunks of 16 rows to the threads, any interleaving of the threads'
  writes, any initial contents of the buffer), and the sequential loop, end with the same
  buffer, which holds at every pixel the value of the evaluator at that pixel's
  coordinates, computed from \<open>(cr, ci, max_iter)\<close> alone. The frame is one whose pixel
  count \<open>width * height\<close> is in the range of a C int, so that no pixel index overflows.
\<close>

theorem parallel_sequential_equivalence:
  assumes "0 < width params" and "0 < height params"
    and "width params * height params \<le> INT_MAX"
    and "length buf0 = nat (width params * height params)"
    and "length buf1 = nat (width params * height params)"
    and "length buf2 = nat (width params * height params)"
    and "parallel_schedule params n1 owner1 tr1"
    and "parallel_schedule params n2 owner2 tr2"
  shows "apply_writes tr1 buf1 = Inr (evaluated_buffer params)
       \<and> apply_writes tr2 buf2 = Inr (evaluated_buffer params)
       \<and> (\<exists>stats'. compute_rows params
              (pixel_scale (x_min params) (x_max params) (width params))
              (pixel_scale (y_min params) (y_max params) (height params))
              0 buf0 stats = Inr (evaluated_buffer params, stats'))
       \<and> (\<forall>py px. 0 \<le> py \<and> py < height params \<and> 0 \<le> px \<and> px < width params \<longrightarrow>
             evaluated_buffer params ! nat (py * width params + px)
               = fst (evaluate_pixel
                   (pixel_coordinate (x_min params) px
                      (pixel_scale (x_min params) (x_max params) (width params)))
                   (pixel_coordinate (y_min params) py
                      (pixel_scale (y_min params) (y_max params) (height params)))
                   (max_iterations params) None))"
proof (intro conjI allI impI)
  show "apply_writes tr1 buf1 = Inr (evaluated_buffer params)"
    using assms(7,1,5) by (rule parallel_run_evaluated_buffer)
  show "apply_writes tr2 buf2 = Inr (evaluated_buffer params)"
    using assms(8,1,6) by (rule parallel_run_evaluated_buffer)
  show "\<exists>stats'. compute_rows params
              (pixel_scale (x_min params) (x_max params) (width params))
              (pixel_scale (y_min params) (y_max params) (height params))
              0 buf0 stats = Inr (evaluated_buffer params, stats')"
    using assms(4,2) by (intro compute_rows_evaluated_buffer) simp_all
  fix py px
  assume "0 \<le> py \<and> py < height params \<and> 0 \<le> px \<and> px < width params"
  then show "evaluated_buffer params ! nat (py * width params + px)
               = fst (evaluate_pixel
                   (pixel_coordinate (x_min params) px
                      (pixel_scale (x_min params) (x_max params) (width params)))
                   (pixel_coordinate (y_min params) py
                      (pixel_scale (y_min params) (y_max params) (height params)))
                   (max_iterations params) None)"
    by (simp add: evaluated_buffer_nth pixel_value_def)
qed

theorem parallel_sequential_equivalence_witness:
  "0 < width demo_params \<and> 0 < height demo_params
   \<and> width demo_params * height demo_params \<le> INT_MAX
   \<and> length (replicate 34 (0::real)) = nat (width demo_params * height demo_params)
   \<and> parallel_schedule demo_params 1 (\<lambda>k. 0)
        (concat (map (thread_writes demo_params (\<lambda>k. 0)) [0 ..< 1]))
   \<and> parallel_schedule demo_params 8 (\<lambda>k. if k = 0 then 1 else 0)
        (concat (map (thread_writes demo_params (\<lambda>k. if k = 0 then 1 else 0)) [0 ..< 8]))
   \<and> apply_writes (concat (map (thread_writes demo_params (\<lambda>k. 0)) [0 ..< 1]))
        (replicate 34 0) = Inr (evaluated_buffer demo_params)
   \<and> apply_writes
        (concat (map (thread_writes demo_params (\<lambda>k. if k = 0 then 1 else 0)) [0 ..< 8]))
        (replicate 34 0) = Inr (evaluated_buffer demo_params)
   \<and> (\<exists>stats'. compute_rows demo_params
          (pixel_scale (x_min demo_params) (x_max demo_params) (width demo_params))
          (pixel_scale (y_min demo_params) (y_max demo_params) (height demo_params))
          0 (replicate 34 0) None = Inr (evaluated_buffer demo_params, stats'))"
proof -
  have w: "0 < width demo_params" and h: "0 < height demo_params"
    by (simp_all add: demo_params_def)
  have l: "length (replicate 34 (0::real)) = nat (width demo_params * height demo_params)"
    by (simp add: demo_params_def)
  have m: "width demo_params * height demo_params \<le> INT_MAX"
    by (simp add: demo_params_def INT_MAX_def)
  have s1: "parallel_schedule demo_params 1 (\<lambda>k. 0)
        (concat (map (thread_writes demo_params (\<lambda>k. 0)) [0 ..< 1]))"
    by (rule one_thread_after_the_other) simp
  have s8: "parallel_schedule demo_params 8 (\<lambda>k. if k = 0 then 1 else 0)
        (concat (map (thread_writes demo_params (\<lambda>k. if k = 0 then 1 else 0)) [0 ..< 8]))"
    by (rule one_thread_after_the_other) simp
  from parallel_sequential_equivalence [OF w h m l l l s1 s8, of None] w h m l s1 s8
  show ?thesis by blast
qed

subsection \<open>Colouring phase and the whole run\<close>

lemma store_pixel_ok:
  assumes "0 \<le> k" and "k + 3 \<le> int (length img)"
  shows "store_pixel img k c = Inr (img[nat k := r c, nat k + 1 := g c, nat k + 2 := b c])"
proof -
  have "nat (k + 1) = nat k + 1" "nat (k + 2) = nat k + 2" using assms(1) by linarith+
  then show ?thesis using assms by (simp add: store_pixel_def store_def)
qed

lemma take_update3:
  assumes "k + 3 \<le> length xs"
  shows "take (k + 3) (xs[k := x, k + 1 := y, k + 2 := z]) = take k xs @ [x, y, z]"
proof -
  let ?u = "xs[k := x, k + 1 := y, k + 2 := z]"
  have l: "length ?u = length xs" by simp
  have "take (k + 3) ?u = take (Suc (Suc (Suc k))) ?u" by (simp add: eval_nat_numeral)
  also have "\<dots> = take k ?u @ [?u ! k, ?u ! Suc k, ?u ! Suc (Suc k)]"
    using assms l by (simp add: take_Suc_conv_app_nth)
  also have "take k ?u = take k xs" by simp
  also have "?u ! k = x" using assms by simp
  also have "?u ! Suc k = y" using assms by simp
  also have "?u ! Suc (Suc k) = z" using assms by simp
  finally show ?thesis .
qed

lemma color_loop_standard:
  assumes "0 \<le> i" "i \<le> n" "n = int (length d)" "length img = nat (3 * n)"
  shows "color_loop d m None n i img
          = Inr (take (nat (3 * i)) img
                 @ concat (map (\<lambda>v. color_bytes (map_iteration_to_color_standard v m))
                             (drop (nat i) d)))"
  using assms
proof (induction d m "None :: Histogram option" n i img rule: color_loop.induct)
  case (1 d m n i img)
  show ?case
  proof (cases "i < n")
    case False
    with "1.prems" have "i = n" by simp
    with "1.prems" have "take (nat (3 * i)) img = img" "drop (nat i) d = []" by simp_all
    moreover have "color_loop d m None n i img = Inr img"
      using False by (subst color_loop.simps) simp
    ultimately show ?thesis by simp
  next
    case True
    let ?c = "map_iteration_to_color_standard (d ! nat i) m"
    let ?img1 = "img[nat (i * 3) := r ?c, nat (i * 3) + 1 := g ?c, nat (i * 3) + 2 := b ?c]"
    have inb: "\<not> (i < 0 \<or> int (length d) \<le> i)" using True "1.prems"(1,3) by simp
    have col: "(if None \<noteq> (None :: Histogram option)
                then map_iteration_to_color_histogram (d ! nat i) m None
                else Inr (map_iteration_to_color_standard (d ! nat i) m)) = Inr ?c"
      by simp
    have k: "0 \<le> i * 3" "i * 3 + 3 \<le> int (length img)"
      using True "1.prems"(1,4) by simp_all
    have sp: "store_pixel img (i * 3) ?c = Inr ?img1" using k by (rule store_pixel_ok)
    have nonneg: "0 \<le> i + 1" and le: "i + 1 \<le> n" using True "1.prems"(1) by simp_all
    have len1: "length ?img1 = nat (3 * n)" using "1.prems"(4) by simp
    note IH = "1.hyps" [OF True inb col sp nonneg le "1.prems"(3) len1]
    have unf: "color_loop d m None n i img = color_loop d m None n (i + 1) ?img1"
      using True inb sp by (subst color_loop.simps) simp
    have nk: "nat (3 * (i + 1)) = nat (i * 3) + 3" using "1.prems"(1) by simp
    have kk: "nat (i * 3) + 3 \<le> length img" using k by linarith
    have tk: "take (nat (3 * (i + 1))) ?img1 = take (nat (3 * i)) img @ color_bytes ?c"
      unfolding nk take_update3 [OF kk] by (simp add: color_bytes_def mult.commute)
    have lt: "nat i < length d" using inb "1.prems"(1) by linarith
    have dr: "drop (nat i) d = d ! nat i # drop (nat (i + 1)) d"
      using lt "1.prems"(1) by (simp add: Cons_nth_drop_Suc nat_add_distrib)
    show ?thesis unfolding unf IH tk dr by simp
  qed
qed

lemma compute_rows_evaluated_buffer_cases:
  assumes "length d = nat (width params * height params)" and "0 \<le> height params"
  shows "(case compute_rows params
            (pixel_scale (x_min params) (x_max params) (width params))
            (pixel_scale (y_min params) (y_max params) (height params))
            0 d stats of Inl e \<Rightarrow> Inl e | Inr (d', s') \<Rightarrow> F d')
         = F (evaluated_buffer params)"
proof -
  from compute_rows_evaluated_buffer [OF assms, of stats] obtain s' where
    "compute_rows params
            (pixel_scale (x_min params) (x_max params) (width params))
            (pixel_scale (y_min params) (y_max params) (height params))
            0 d stats = Inr (evaluated_buffer params, s')" by blast
  then show ?thesis by simp
qed

lemma length_evaluated_buffer:
  "length (evaluated_buffer params) = nat (width params * height params)"
  by (simp add: evaluated_buffer_def)

lemma length_standard_image:
  assumes "0 \<le> width params * height params"
  shows "length (standard_image params) = nat (width params * height params * 3)"
proof -
  have "length (concat (map (\<lambda>v. color_bytes (f v)) xs)) = 3 * length xs" for f and xs :: "real list"
    by (induction xs) (simp_all add: color_bytes_def)
  then have "length (standard_image params) = 3 * nat (width params * height params)"
    by (simp add: standard_image_def length_evaluated_buffer)
  then show ?thesis using assms by simp
qed

lemma generate_mandelbrot_standard:
  assumes "0 < width params" and "0 < height params"
    and "malloc_image_ok env" and "malloc_iteration_ok env"
    and "use_histogram params = 0 \<or> \<not> malloc_histogram_ok env \<or> \<not> calloc_counts_ok env"
  shows "generate_mandelbrot env params
          = Inr (if png_write_ok env then 1 else 0, Some (standard_image params))"
proof -
  let ?n = "width params * height params"
  let ?img = "map (image_garbage env) [0 ..< nat (?n * 3)]"
  let ?d = "map (iteration_garbage env) [0 ..< nat ?n]"
  have n0: "0 \<le> ?n" using assms(1,2) by simp
  have hist: "(if use_histogram params \<noteq> 0
                then build_histogram (malloc_histogram_ok env) (calloc_counts_ok env)
                       (evaluated_buffer params) (width params) (height params)
                       (max_iterations params)
                else Inr None) = Inr None"
    using assms(5) by (auto simp add: build_histogram_def)
  have "color_loop (evaluated_buffer params) (max_iterations params) None ?n 0 ?img
      = Inr (take (nat (3 * 0)) ?img
             @ concat (map (\<lambda>v. color_bytes (map_iteration_to_color_standard v (max_iterations params)))
                         (drop (nat 0) (evaluated_buffer params))))"
    using n0 by (intro color_loop_standard) (simp_all add: length_evaluated_buffer mult.commute)
  then have col: "color_loop (evaluated_buffer params) (max_iterations params) None ?n 0 ?img
      = Inr (standard_image params)"
    by (simp add: standard_image_def)
  have rows: "(case compute_rows params
            (pixel_scale (x_min params) (x_max params) (width params))
            (pixel_scale (y_min params) (y_max params) (height params))
            0 ?d stats of Inl e \<Rightarrow> Inl e | Inr (d', s') \<Rightarrow> F d')
         = F (evaluated_buffer params)" for stats and F :: "real list \<Rightarrow> fault + (int \<times> 8 word list option)"
    using assms(2) by (intro compute_rows_evaluated_buffer_cases) simp_all
  show ?thesis
    unfolding generate_mandelbrot_def Let_def using assms(3,4)
    by (simp only: rows hist) (simp add: col)
qed

text \<open>
  Claim C10. If the allocation of the histogram fails (\<open>build_histogram\<close> returns
  \<open>NULL\<close>) while histogram colouring is requested, the render does not fail: with the
  other allocations and the PNG writer succeeding, \<open>generate_mandelbrot\<close> returns 1 and
  hands over a complete pixel buffer of \<open>width * height * 3\<close> bytes in which every pixel
  has its standard colour, the same outcome as with histogram colouring switched off.
  The frame is one whose byte count \<open>width * height * 3\<close> is in the range of a C int, so
  that neither a pixel index nor a byte index overflows.
\<close>

theorem histogram_allocation_failure_falls_back:
  assumes "0 < width params" and "0 < height params"
    and "width params * height params * 3 \<le> INT_MAX"
    and "malloc_image_ok env" and "malloc_iteration_ok env" and "png_write_ok env"
    and "use_histogram params \<noteq> 0"
    and "\<not> (malloc_histogram_ok env \<and> calloc_counts_ok env)"
  shows "generate_mandelbrot env params = Inr (1, Some (standard_image params))
       \<and> length (standard_image params) = nat (width params * height params * 3)
       \<and> generate_mandelbrot env params = generate_mandelbrot env (params\<lparr> use_histogram := 0 \<rparr>)"
proof -
  have a: "generate_mandelbrot env params
          = Inr (if png_write_ok env then 1 else 0, Some (standard_image params))"
    using assms(1,2,4,5,8) by (intro generate_mandelbrot_standard) simp_all
  have b: "generate_mandelbrot env (params\<lparr> use_histogram := 0 \<rparr>)
          = Inr (if png_write_ok env then 1 else 0, Some (standard_image (params\<lparr> use_histogram := 0 \<rparr>)))"
    using assms(1,2,4,5) by (intro generate_mandelbrot_standard) simp_all
  have c: "standard_image (params\<lparr> use_histogram := 0 \<rparr>) = standard_image params"
    by (simp add: standard_image_def evaluated_buffer_def pixel_value_def)
  have d: "length (standard_image params) = nat (width params * height params * 3)"
    using assms(1,2) by (intro length_standard_image) simp
  from a b c d assms(6) show ?thesis by simp
qed

theorem histogram_allocation_failure_falls_back_witness:
  "0 < width demo_params \<and> 0 < height demo_params
   \<and> width demo_params * height demo_params * 3 \<le> INT_MAX
   \<and> malloc_image_ok demo_env \<and> malloc_iteration_ok demo_env \<and> png_write_ok demo_env
   \<and> use_histogram demo_params \<noteq> 0
   \<and> \<not> (malloc_histogram_ok demo_env \<and> calloc_counts_ok demo_env)
   \<and> generate_mandelbrot demo_env demo_params = Inr (1, Some (standard_image demo_params))
   \<and> length (standard_image demo_params) = nat (width demo_params * height demo_params * 3)
   \<and> generate_mandelbrot demo_env demo_params
       = generate_mandelbrot demo_env (demo_params\<lparr> use_histogram := 0 \<rparr>)"
proof -
  have h: "0 < width demo_params" "0 < height demo_params"
    "width demo_params * height demo_params * 3 \<le> INT_MAX"
    "malloc_image_ok demo_env" "malloc_iteration_ok demo_env" "png_write_ok demo_env"
    "use_histogram demo_params \<noteq> 0"
    "\<not> (malloc_histogram_ok demo_env \<and> calloc_counts_ok demo_env)"
    by (simp_all add: demo_params_def demo_env_def INT_MAX_def)
  from histogram_allocation_failure_falls_back [OF h] h show ?thesis by blast
qed

subsection \<open>The origin\<close>

text \<open>
  The origin is fast-rejected, and the main loop started there stays at \<open>z = 0\<close> and
  runs to \<open>max_iter\<close>.
\<close>

lemma mandel_loop_origin:
  "iter \<le> max_iter \<Longrightarrow> mandel_loop 0 0 max_iter 0 0 iter = (0, 0, max_iter)"
proof (induction "0::real" "0::real" max_iter "0::real" "0::real" iter rule: mandel_loop.induct)
  case (1 max_iter iter)
  show ?case
  proof (cases "iter < max_iter")
    case True
    have "mandel_loop 0 0 max_iter 0 0 iter = mandel_loop 0 0 max_iter 0 0 (iter + 1)"
      using True by (subst mandel_loop.simps) (simp add: BAILOUT_TEST_def)
    also have "\<dots> = (0, 0, max_iter)" using True by (intro "1.hyps") (simp_all add: BAILOUT_TEST_def)
    finally show ?thesis .
  next
    case False
    with "1.prems" show ?thesis by (subst mandel_loop.simps) simp
  qed
qed

lemma origin_fast_rejected_and_never_escapes:
  "quick_mandelbrot_check 0 0 \<and> (0 \<le> max_iter \<longrightarrow> escape_iter 0 0 max_iter = max_iter)"
  by (simp add: quick_mandelbrot_check_def Let_def escape_iter_def mandel_loop_origin)

end
